theory Spec2Isabelle
  imports Main "HOL-Library.AList"
begin

section \<open>Messages of the streaming API\<close>

text \<open>
  The protocol messages come from the external package \<^verbatim>\<open>istio.io/api/mixer/v1\<close>; the
  records below carry exactly the fields that \<^verbatim>\<open>handleCheck\<close>, \<^verbatim>\<open>handleReport\<close> and
  \<^verbatim>\<open>handleQuota\<close> read or write. \<^verbatim>\<open>RequestIndex\<close> is an \<^verbatim>\<open>int64\<close> that is only ever
  copied, a \<^verbatim>\<open>time.Duration\<close> is a count of nanoseconds, a Go \<^verbatim>\<open>error\<close> is its message.
  The type of the attribute message is left open (\<open>'a\<close>).
\<close>

record Status =
  Code :: int
  Message :: string
  Details :: "(string \<times> string) list"

definition OK :: int where "OK = 0"
definition INVALID_ARGUMENT :: int where "INVALID_ARGUMENT = 3"

definition zeroStatus :: Status where
  "zeroStatus = \<lparr>Code = 0, Message = [], Details = []\<rparr>"

text \<open>
  Modelled from the spec: \<^verbatim>\<open>status.NewBadRequest\<close> and \<^verbatim>\<open>status.InvalidWithDetails\<close> of
  \<^verbatim>\<open>pkg/status\<close>, which is not among the sources; the spec calls the result an
  \<^verbatim>\<open>INVALID_ARGUMENT\<close>-equivalent response. The detail records the offending field and
  the error text.
\<close>

definition NewBadRequest :: "string \<Rightarrow> string \<Rightarrow> string \<times> string" where
  "NewBadRequest field err = (field, err)"

definition InvalidWithDetails :: "string \<Rightarrow> string \<times> string \<Rightarrow> Status" where
  "InvalidWithDetails msg details = \<lparr>Code = INVALID_ARGUMENT, Message = msg, Details = [details]\<rparr>"

record 'a ReportRequest =
  RequestIndex :: int
  AttributeUpdate :: 'a

type_synonym 'a CheckRequest = "'a ReportRequest"

record 'a QuotaRequest = "'a ReportRequest" +
  Quota :: string
  Amount :: int
  DeduplicationId :: string
  BestEffort :: bool

record 'a ReportResponse =
  resp_RequestIndex :: int
  resp_AttributeUpdate :: 'a
  Result :: Status

record 'a CheckResponse = "'a ReportResponse" +
  Expiration :: int

record 'a QuotaResponse = "'a CheckResponse" +
  resp_Amount :: int

record QuotaMethodArgs =
  qma_Quota :: string
  qma_Amount :: int
  qma_DeduplicationID :: string
  qma_BestEffort :: bool

record QuotaMethodResp =
  qmr_Amount :: int
  qmr_Expiration :: int

definition Second :: int where "Second = 1000000000"

section \<open>The gRPC server and its method handlers\<close>

text \<open>
  \<^verbatim>\<open>grpcServer\<close> of the streaming \<^verbatim>\<open>grpcServer.go\<close>. Its collaborators live in packages that
  are not among the sources, so they are fields holding arbitrary functions:
  \<^item> \<open>Check\<close>, \<open>Report\<close> and \<open>QuotaFn\<close> are the methods of \<^verbatim>\<open>aspectDispatcher\<close>; each gets the
    request bag and the fresh response bag and returns its status together with the
    response bag as it left it;
  \<^item> \<open>NewTracker\<close>, \<open>ApplyProto\<close> and \<open>ApplyBag\<close> are the attribute manager's tracker
    (state \<open>'t\<close>): \<open>ApplyProto\<close> yields the request bag or an error, \<open>ApplyBag\<close> the
    attribute message written into the response;
  \<open>GetMutableBag\<close> is \<^verbatim>\<open>attribute.GetMutableBag(nil)\<close>, \<open>workers\<close> the number of goroutines of
  the pool \<^verbatim>\<open>gp\<close>.
\<close>

record ('a, 'b, 't) grpcServer =
  Check :: "'b \<Rightarrow> 'b \<Rightarrow> Status \<times> 'b"
  Report :: "'b \<Rightarrow> 'b \<Rightarrow> Status \<times> 'b"
  QuotaFn :: "'b \<Rightarrow> 'b \<Rightarrow> QuotaMethodArgs \<Rightarrow> (QuotaMethodResp option \<times> Status) \<times> 'b"
  NewTracker :: 't
  ApplyProto :: "'t \<Rightarrow> 'a \<Rightarrow> (string + 'b) \<times> 't"
  ApplyBag :: "'t \<Rightarrow> 'b \<Rightarrow> 'a \<times> 't"
  GetMutableBag :: 'b
  NewAttributes :: 'a
  workers :: nat

text \<open>
  The three handlers. Each mutates the response it is given and the response bag; the
  model returns both.
\<close>

definition handleCheck ::
  "('a, 'b, 't) grpcServer \<Rightarrow> 'b \<Rightarrow> 'b \<Rightarrow> 'a CheckRequest \<Rightarrow> 'a CheckResponse
    \<Rightarrow> 'a CheckResponse \<times> 'b" where
  "handleCheck s requestBag responseBag req resp =
     (let (res, responseBag') = Check s requestBag responseBag
      in (resp\<lparr>resp_RequestIndex := RequestIndex req, Result := res,
                Expiration := 5 * Second\<rparr>, responseBag'))"

definition handleReport ::
  "('a, 'b, 't) grpcServer \<Rightarrow> 'b \<Rightarrow> 'b \<Rightarrow> 'a ReportRequest \<Rightarrow> 'a ReportResponse
    \<Rightarrow> 'a ReportResponse \<times> 'b" where
  "handleReport s requestBag responseBag req resp =
     (let (res, responseBag') = Report s requestBag responseBag
      in (resp\<lparr>resp_RequestIndex := RequestIndex req, Result := res\<rparr>, responseBag'))"

definition handleQuota ::
  "('a, 'b, 't) grpcServer \<Rightarrow> 'b \<Rightarrow> 'b \<Rightarrow> 'a QuotaRequest \<Rightarrow> 'a QuotaResponse
    \<Rightarrow> 'a QuotaResponse \<times> 'b" where
  "handleQuota s requestBag responseBag req resp =
     (let qma = \<lparr>qma_Quota = Quota req, qma_Amount = Amount req,
                 qma_DeduplicationID = DeduplicationId req, qma_BestEffort = BestEffort req\<rparr>;
          ((qmr, res), responseBag') = QuotaFn s requestBag responseBag qma;
          resp1 = resp\<lparr>resp_RequestIndex := RequestIndex req, Result := res\<rparr>
      in (case qmr of
            None \<Rightarrow> (resp1, responseBag')
          | Some r \<Rightarrow> (resp1\<lparr>resp_Amount := qmr_Amount r, Expiration := qmr_Expiration r\<rparr>,
                       responseBag')))"

text \<open>
  What \<^verbatim>\<open>dispatcher\<close> is given per API method: the closure \<^verbatim>\<open>getState\<close> (a fresh response,
  and where the request's attributes, the response's attributes and the result live in
  the two messages) and the \<^verbatim>\<open>worker\<close>. The dispatcher sees requests and responses only
  as \<^verbatim>\<open>proto.Message\<close>: the types \<open>'q\<close> and \<open>'r\<close> are open.
\<close>

record ('q, 'r, 'a, 'b) apiMethod =
  newResponse :: 'r
  requestAttrs :: "'q \<Rightarrow> 'a"
  setResponseAttrs :: "'a \<Rightarrow> 'r \<Rightarrow> 'r"
  setResult :: "Status \<Rightarrow> 'r \<Rightarrow> 'r"
  worker :: "'b \<Rightarrow> 'b \<Rightarrow> 'q \<Rightarrow> 'r \<Rightarrow> 'r \<times> 'b"

definition CheckMethod ::
  "('a, 'b, 't) grpcServer \<Rightarrow> ('a CheckRequest, 'a CheckResponse, 'a, 'b) apiMethod" where
  "CheckMethod s =
     \<lparr>newResponse = \<lparr>resp_RequestIndex = 0, resp_AttributeUpdate = NewAttributes s,
                      Result = zeroStatus, Expiration = 0\<rparr>,
      requestAttrs = AttributeUpdate,
      setResponseAttrs = (\<lambda>a r. r\<lparr>resp_AttributeUpdate := a\<rparr>),
      setResult = (\<lambda>st r. r\<lparr>Result := st\<rparr>),
      worker = handleCheck s\<rparr>"

definition ReportMethod ::
  "('a, 'b, 't) grpcServer \<Rightarrow> ('a ReportRequest, 'a ReportResponse, 'a, 'b) apiMethod" where
  "ReportMethod s =
     \<lparr>newResponse = \<lparr>resp_RequestIndex = 0, resp_AttributeUpdate = NewAttributes s,
                      Result = zeroStatus\<rparr>,
      requestAttrs = AttributeUpdate,
      setResponseAttrs = (\<lambda>a r. r\<lparr>resp_AttributeUpdate := a\<rparr>),
      setResult = (\<lambda>st r. r\<lparr>Result := st\<rparr>),
      worker = handleReport s\<rparr>"

definition QuotaMethod ::
  "('a, 'b, 't) grpcServer \<Rightarrow> ('a QuotaRequest, 'a QuotaResponse, 'a, 'b) apiMethod" where
  "QuotaMethod s =
     \<lparr>newResponse = \<lparr>resp_RequestIndex = 0, resp_AttributeUpdate = NewAttributes s,
                      Result = zeroStatus, Expiration = 0, resp_Amount = 0\<rparr>,
      requestAttrs = AttributeUpdate,
      setResponseAttrs = (\<lambda>a r. r\<lparr>resp_AttributeUpdate := a\<rparr>),
      setResult = (\<lambda>st r. r\<lparr>Result := st\<rparr>),
      worker = handleQuota s\<rparr>"

section \<open>The stream dispatcher\<close>

text \<open>
  \<^verbatim>\<open>dispatcher\<close> runs one goroutine that reads the stream and hands every decoded request
  to the goroutine pool; the scheduled closures run concurrently with the reader and with
  each other. The model is an interleaving of atomic steps over the state below.

  \<^item> \<open>inbox\<close> holds the messages \<^verbatim>\<open>stream.RecvMsg\<close> will still deliver; once it is empty
    \<^verbatim>\<open>RecvMsg\<close> returns \<open>closing\<close>: \<open>None\<close> for \<^verbatim>\<open>io.EOF\<close>, \<open>Some e\<close> for any other error.
  \<^item> \<open>phase\<close>: \<open>Reading\<close> while the \<^verbatim>\<open>for\<close> loop runs; \<open>Draining r\<close> once the loop has
    returned \<open>r\<close> and the deferred calls are pending, the first of them (the last one
    deferred) being \<^verbatim>\<open>wg.Wait()\<close>; \<open>Closed r\<close> when \<^verbatim>\<open>dispatcher\<close> has returned \<open>r\<close>;
    \<open>Panicked\<close> if \<^verbatim>\<open>wg.Done()\<close> drove the counter below zero.
  \<^item> \<open>wg\<close> is the counter of the \<^verbatim>\<open>sync.WaitGroup\<close>.
  \<^item> \<open>queue\<close> holds the closures given to \<^verbatim>\<open>ScheduleWork\<close> that no worker has taken yet,
    \<open>running\<close> those a worker is executing, each with how far it got.
  \<^item> \<open>sent\<close> lists the messages passed to \<^verbatim>\<open>sendMsg\<close>, in order. \<^verbatim>\<open>sendLock\<close> makes each
    send atomic; a failed send is only logged, so it changes nothing here.
  \<^item> \<open>reqTrackerDone\<close> and \<open>respTrackerDone\<close> record the deferred \<^verbatim>\<open>Done()\<close> calls.
\<close>

datatype phase = Reading | Draining "string option" | Closed "string option" | Panicked

datatype stage = Executing | Responded

record ('q, 'r, 'b) work =
  w_request :: 'q
  w_response :: 'r
  w_requestBag :: 'b

record ('q, 'r, 'b, 't) dstate =
  phase :: phase
  inbox :: "'q list"
  closing :: "string option"
  reqTracker :: 't
  respTracker :: 't
  reqTrackerDone :: bool
  respTrackerDone :: bool
  wg :: int
  queue :: "('q, 'r, 'b) work list"
  running :: "(('q, 'r, 'b) work \<times> stage) list"
  sent :: "'r list"

definition init :: "('a, 'b, 't) grpcServer \<Rightarrow> 'q list \<Rightarrow> string option \<Rightarrow> ('q, 'r, 'b, 't) dstate" where
  "init s msgs fin =
     \<lparr>phase = Reading, inbox = msgs, closing = fin,
      reqTracker = NewTracker s, respTracker = NewTracker s,
      reqTrackerDone = False, respTrackerDone = False,
      wg = 0, queue = [], running = [], sent = []\<rparr>"

text \<open>
  Modelled from the spec: \<^verbatim>\<open>ScheduleWork\<close> of the goroutine pool (\<^verbatim>\<open>pkg/pool\<close>), which is not
  among the sources. It appends the closure to an unbounded queue and returns; the workers
  take closures from the head of the queue, and at most \<open>workers\<close> closures run at a time
  (step \<open>Start\<close> below).
\<close>

definition ScheduleWork :: "'w \<Rightarrow> 'w list \<Rightarrow> 'w list" where
  "ScheduleWork fn q = q @ [fn]"

definition invalid_msg :: string where
  "invalid_msg = ''Request could not be processed due to invalid 'attribute_update'.''"

text \<open>
  One iteration of the \<^verbatim>\<open>for\<close> loop: \<^verbatim>\<open>getState\<close>, \<^verbatim>\<open>RecvMsg\<close>, \<^verbatim>\<open>ApplyProto\<close>, and then either
  the error response followed by \<^verbatim>\<open>continue\<close>, or \<^verbatim>\<open>wg.Add(1)\<close> and \<^verbatim>\<open>ScheduleWork\<close>.
\<close>

definition recv ::
  "('a, 'b, 't) grpcServer \<Rightarrow> ('q, 'r, 'a, 'b) apiMethod \<Rightarrow> ('q, 'r, 'b, 't) dstate
    \<Rightarrow> ('q, 'r, 'b, 't) dstate" where
  "recv s m d =
     (case inbox d of
        [] \<Rightarrow> d\<lparr>phase := Draining (closing d)\<rparr>
      | request # rest \<Rightarrow>
          (let response = newResponse m;
               (res, tr) = ApplyProto s (reqTracker d) (requestAttrs m request)
           in case res of
                Inl err \<Rightarrow>
                  d\<lparr>inbox := rest, reqTracker := tr,
                    sent := sent d @
                      [setResult m
                         (InvalidWithDetails invalid_msg (NewBadRequest ''attribute_update'' err))
                         response]\<rparr>
              | Inr requestBag \<Rightarrow>
                  d\<lparr>inbox := rest, reqTracker := tr,
                    wg := wg d + 1,
                    queue := ScheduleWork
                      \<lparr>w_request = request, w_response = response,
                        w_requestBag = requestBag\<rparr> (queue d)\<rparr>))"

text \<open>
  The body of the scheduled closure up to and including the send: the worker runs on a
  fresh response bag, then, under \<^verbatim>\<open>sendLock\<close>, \<^verbatim>\<open>ApplyBag\<close> fills the response's attributes
  and the response is sent.
\<close>

definition respond ::
  "('a, 'b, 't) grpcServer \<Rightarrow> ('q, 'r, 'a, 'b) apiMethod \<Rightarrow> nat \<Rightarrow> ('q, 'r, 'b, 't) dstate
    \<Rightarrow> ('q, 'r, 'b, 't) dstate" where
  "respond s m i d =
     (let w = fst (running d ! i);
          (response, responseBag) =
             worker m (w_requestBag w) (GetMutableBag s) (w_request w) (w_response w);
          (attrs, tr) = ApplyBag s (respTracker d) responseBag;
          response' = setResponseAttrs m attrs response
      in d\<lparr>respTracker := tr,
           running := (running d)[i := (w\<lparr>w_response := response'\<rparr>, Responded)],
           sent := sent d @ [response']\<rparr>)"

text \<open>
  The rest of the closure: both bags are released and \<^verbatim>\<open>wg.Done()\<close> is called, which
  panics when the counter would become negative. The worker goroutine is free again.
\<close>

definition finish :: "nat \<Rightarrow> ('q, 'r, 'b, 't) dstate \<Rightarrow> ('q, 'r, 'b, 't) dstate" where
  "finish i d =
     (if wg d - 1 < 0 then d\<lparr>phase := Panicked\<rparr>
      else d\<lparr>wg := wg d - 1, running := take i (running d) @ drop (Suc i) (running d)\<rparr>)"

text \<open>
  The steps the scheduler may choose from. A step that cannot be taken in a state
  (a blocked goroutine, an empty queue, no idle worker) yields \<open>None\<close>.
  \<^item> \<open>Recv\<close>: the reader runs one loop iteration.
  \<^item> \<open>Start\<close>: an idle worker takes the closure at the head of the queue.
  \<^item> \<open>Respond i\<close>: the \<open>i\<close>-th running closure gets through its worker and sends.
  \<^item> \<open>Finish i\<close>: the \<open>i\<close>-th running closure, having sent, runs to its end.
  \<^item> \<open>Wait\<close>: the reader has left the loop; \<^verbatim>\<open>wg.Wait()\<close> returns, which it does only at
    counter zero, and the remaining deferred calls (\<^verbatim>\<open>root.Finish\<close>, \<^verbatim>\<open>respTracker.Done\<close>,
    \<^verbatim>\<open>reqTracker.Done\<close>) run.
\<close>

datatype action = Recv | Start | Respond nat | Finish nat | Wait

fun step ::
  "('a, 'b, 't) grpcServer \<Rightarrow> ('q, 'r, 'a, 'b) apiMethod \<Rightarrow> action \<Rightarrow> ('q, 'r, 'b, 't) dstate
    \<Rightarrow> ('q, 'r, 'b, 't) dstate option" where
  "step s m Recv d = (if phase d = Reading then Some (recv s m d) else None)"
| "step s m Start d =
     (if phase d \<noteq> Panicked \<and> queue d \<noteq> [] \<and> length (running d) < workers s
      then Some (d\<lparr>queue := tl (queue d), running := running d @ [(hd (queue d), Executing)]\<rparr>)
      else None)"
| "step s m (Respond i) d =
     (if phase d \<noteq> Panicked \<and> i < length (running d) \<and> snd (running d ! i) = Executing
      then Some (respond s m i d) else None)"
| "step s m (Finish i) d =
     (if phase d \<noteq> Panicked \<and> i < length (running d) \<and> snd (running d ! i) = Responded
      then Some (finish i d) else None)"
| "step s m Wait d =
     (case phase d of
        Draining r \<Rightarrow>
          (if wg d = 0
           then Some (d\<lparr>phase := Closed r, respTrackerDone := True, reqTrackerDone := True\<rparr>)
           else None)
      | _ \<Rightarrow> None)"

fun run ::
  "('a, 'b, 't) grpcServer \<Rightarrow> ('q, 'r, 'a, 'b) apiMethod \<Rightarrow> action list \<Rightarrow> ('q, 'r, 'b, 't) dstate
    \<Rightarrow> ('q, 'r, 'b, 't) dstate option" where
  "run s m [] d = Some d"
| "run s m (a # as) d = (case step s m a d of None \<Rightarrow> None | Some d' \<Rightarrow> run s m as d')"

section \<open>Attribute values, bags and the wire codec\<close>

text \<open>
  The attribute package (\<^verbatim>\<open>bag.go\<close>, \<^verbatim>\<open>mutableBag.go\<close>, \<^verbatim>\<open>emptyBag.go\<close>) is not among the
  sources; only its test file is. The definitions of this section follow the
  specification, and the data of the test file is replayed against them further down.

  An \<^verbatim>\<open>int64\<close>, a \<^verbatim>\<open>time.Time\<close> and a \<^verbatim>\<open>time.Duration\<close> are integers that the codec only
  copies, a \<^verbatim>\<open>float64\<close> is carried as its 64 bits, a byte sequence is a list of numbers,
  and a Go map is an association list: the order of the list is the order in which
  \<^verbatim>\<open>range\<close> happens to visit the map.
\<close>

type_synonym float64 = int

datatype AttributeValue =
    VString string
  | VInt64 int
  | VFloat64 float64
  | VBool bool
  | VTimestamp int
  | VDuration int
  | VBytes "nat list"
  | VStringMap "(string \<times> string) list"

text \<open>
  Modelled from the spec: the Bag of \<^verbatim>\<open>bag.go\<close> and \<^verbatim>\<open>mutableBag.go\<close>. A bag maps names to
  values and may have a parent. Lookup tries the local entries, then the parent chain; a
  name locally marked deleted shadows the parent's value. The visible names are the local
  names together with the parent's names minus the local deletions.
\<close>

datatype Bag = Bag (entries: "string \<rightharpoonup> AttributeValue") (deleted: "string set") (parent: "Bag option")

fun Get :: "Bag \<Rightarrow> string \<Rightarrow> AttributeValue option" where
  "Get (Bag e del par) name =
     (case e name of
        Some v \<Rightarrow> Some v
      | None \<Rightarrow>
          (if name \<in> del then None
           else (case par of None \<Rightarrow> None | Some p \<Rightarrow> Get p name)))"

fun Names :: "Bag \<Rightarrow> string set" where
  "Names (Bag e del par) =
     dom e \<union> ((case par of None \<Rightarrow> {} | Some p \<Rightarrow> Names p) - del)"

text \<open>
  The wire message \<^verbatim>\<open>mixerpb.Attributes\<close>, with the fields the test file fills in: the
  message's word list and one map per value type, keyed by dictionary index. A string
  value is itself a dictionary index, and so are the keys and values of a string map
  (\<^verbatim>\<open>mixerpb.StringMap.Entries\<close>).
\<close>

record Attributes =
  Words :: "string list"
  Strings :: "(int \<times> int) list"
  Int64S :: "(int \<times> int) list"
  Doubles :: "(int \<times> float64) list"
  Bools :: "(int \<times> bool) list"
  Timestamps :: "(int \<times> int) list"
  Durations :: "(int \<times> int) list"
  Bytes :: "(int \<times> nat list) list"
  StringMaps :: "(int \<times> (int \<times> int) list) list"

definition emptyAttributes :: Attributes where
  "emptyAttributes =
     \<lparr>Words = [], Strings = [], Int64S = [], Doubles = [], Bools = [], Timestamps = [],
      Durations = [], Bytes = [], StringMaps = []\<rparr>"

datatype error = InvalidAttributeIndex int

text \<open>
  Modelled from the spec: the dictionary's resolution rule. An index \<open>i \<ge> 0\<close> resolves to
  \<open>global[i]\<close>, an index \<open>i < 0\<close> to \<open>local[-i-1]\<close>; resolution fails when the index is out
  of bounds for its list. The test file uses the same convention (\<open>-1\<close> is the first word
  of the message).
\<close>

definition lookup :: "int \<Rightarrow> string list \<Rightarrow> string list \<Rightarrow> string option" where
  "lookup i globalWordList messageWordList =
     (if i < 0
      then (let slot = nat (- i - 1)
            in if slot < length messageWordList then Some (messageWordList ! slot) else None)
      else (if nat i < length globalWordList then Some (globalWordList ! nat i) else None))"

text \<open>
  Modelled from the spec: \<^verbatim>\<open>DecodeAttributes\<close> (\<^verbatim>\<open>GetBagFromProto\<close> in the test file). Every
  entry of every typed map is resolved to a name, its value is built, and the pair is
  inserted into a fresh bag; the first index that does not resolve ends the decoding with
  \<open>InvalidAttributeIndex\<close> and no bag.
\<close>

fun decodeEntries ::
  "string list \<Rightarrow> string list \<Rightarrow> (int \<times> int) list \<Rightarrow> (string \<times> string) list
    \<Rightarrow> error + (string \<times> string) list" where
  "decodeEntries g w [] acc = Inr acc"
| "decodeEntries g w ((i, j) # es) acc =
     (case lookup i g w of
        None \<Rightarrow> Inl (InvalidAttributeIndex i)
      | Some k \<Rightarrow>
          (case lookup j g w of
             None \<Rightarrow> Inl (InvalidAttributeIndex j)
           | Some v \<Rightarrow> decodeEntries g w es (AList.update k v acc)))"

definition decodeString :: "string list \<Rightarrow> string list \<Rightarrow> int \<Rightarrow> error + AttributeValue" where
  "decodeString g w j =
     (case lookup j g w of None \<Rightarrow> Inl (InvalidAttributeIndex j) | Some s \<Rightarrow> Inr (VString s))"

definition decodeStringMap ::
  "string list \<Rightarrow> string list \<Rightarrow> (int \<times> int) list \<Rightarrow> error + AttributeValue" where
  "decodeStringMap g w es =
     (case decodeEntries g w es [] of Inl e \<Rightarrow> Inl e | Inr sm \<Rightarrow> Inr (VStringMap sm))"

fun decodeMap ::
  "string list \<Rightarrow> string list \<Rightarrow> ('x \<Rightarrow> error + AttributeValue) \<Rightarrow> (int \<times> 'x) list
    \<Rightarrow> (string \<rightharpoonup> AttributeValue) \<Rightarrow> error + (string \<rightharpoonup> AttributeValue)" where
  "decodeMap g w conv [] b = Inr b"
| "decodeMap g w conv ((i, x) # es) b =
     (case lookup i g w of
        None \<Rightarrow> Inl (InvalidAttributeIndex i)
      | Some name \<Rightarrow>
          (case conv x of
             Inl e \<Rightarrow> Inl e
           | Inr v \<Rightarrow> decodeMap g w conv es (b(name \<mapsto> v))))"

definition andThen :: "error + 'x \<Rightarrow> ('x \<Rightarrow> error + 'y) \<Rightarrow> error + 'y" where
  "andThen r f = (case r of Inl e \<Rightarrow> Inl e | Inr x \<Rightarrow> f x)"

definition decodeAll ::
  "Attributes \<Rightarrow> string list \<Rightarrow> error + (string \<rightharpoonup> AttributeValue)" where
  "decodeAll a g =
     (let w = Words a in
      andThen (decodeMap g w (decodeString g w) (Strings a) Map.empty) (\<lambda>b1.
      andThen (decodeMap g w (\<lambda>x. Inr (VInt64 x)) (Int64S a) b1) (\<lambda>b2.
      andThen (decodeMap g w (\<lambda>x. Inr (VFloat64 x)) (Doubles a) b2) (\<lambda>b3.
      andThen (decodeMap g w (\<lambda>x. Inr (VBool x)) (Bools a) b3) (\<lambda>b4.
      andThen (decodeMap g w (\<lambda>x. Inr (VTimestamp x)) (Timestamps a) b4) (\<lambda>b5.
      andThen (decodeMap g w (\<lambda>x. Inr (VDuration x)) (Durations a) b5) (\<lambda>b6.
      andThen (decodeMap g w (\<lambda>x. Inr (VBytes x)) (Bytes a) b6) (\<lambda>b7.
      decodeMap g w (decodeStringMap g w) (StringMaps a) b7))))))))"

definition DecodeAttributes :: "Attributes \<Rightarrow> string list \<Rightarrow> error + Bag" where
  "DecodeAttributes a g =
     (case decodeAll a g of Inl e \<Rightarrow> Inl e | Inr b \<Rightarrow> Inr (Bag b {} None))"

text \<open>
  Modelled from the spec: \<^verbatim>\<open>EncodeAttributes\<close> (\<^verbatim>\<open>ToProto\<close> in the test file). For each
  name the value is looked up and an index is resolved: the entry of the reverse global
  dictionary when there is one, otherwise the name is appended to the message's word list
  and gets the corresponding negative index. The value goes into the map of its type; the
  strings inside a value are indexed in the same way. A name the bag does not hold is
  skipped.
\<close>

definition getIndex :: "(string \<rightharpoonup> int) \<Rightarrow> string \<Rightarrow> Attributes \<Rightarrow> int \<times> Attributes" where
  "getIndex wordMap word a =
     (case wordMap word of
        Some i \<Rightarrow> (i, a)
      | None \<Rightarrow> (- int (length (Words a)) - 1, a\<lparr>Words := Words a @ [word]\<rparr>))"

fun encodeEntries ::
  "(string \<rightharpoonup> int) \<Rightarrow> (string \<times> string) list \<Rightarrow> (int \<times> int) list \<Rightarrow> Attributes
    \<Rightarrow> (int \<times> int) list \<times> Attributes" where
  "encodeEntries wordMap [] es a = (es, a)"
| "encodeEntries wordMap ((k, v) # kvs) es a =
     (let (i, a1) = getIndex wordMap k a;
          (j, a2) = getIndex wordMap v a1
      in encodeEntries wordMap kvs (AList.update i j es) a2)"

fun encodeValue :: "(string \<rightharpoonup> int) \<Rightarrow> string \<Rightarrow> AttributeValue \<Rightarrow> Attributes \<Rightarrow> Attributes" where
  "encodeValue wordMap name (VString s) a =
     (let (i, a1) = getIndex wordMap name a;
          (j, a2) = getIndex wordMap s a1
      in a2\<lparr>Strings := AList.update i j (Strings a2)\<rparr>)"
| "encodeValue wordMap name (VInt64 x) a =
     (let (i, a1) = getIndex wordMap name a in a1\<lparr>Int64S := AList.update i x (Int64S a1)\<rparr>)"
| "encodeValue wordMap name (VFloat64 x) a =
     (let (i, a1) = getIndex wordMap name a in a1\<lparr>Doubles := AList.update i x (Doubles a1)\<rparr>)"
| "encodeValue wordMap name (VBool x) a =
     (let (i, a1) = getIndex wordMap name a in a1\<lparr>Bools := AList.update i x (Bools a1)\<rparr>)"
| "encodeValue wordMap name (VTimestamp x) a =
     (let (i, a1) = getIndex wordMap name a in a1\<lparr>Timestamps := AList.update i x (Timestamps a1)\<rparr>)"
| "encodeValue wordMap name (VDuration x) a =
     (let (i, a1) = getIndex wordMap name a in a1\<lparr>Durations := AList.update i x (Durations a1)\<rparr>)"
| "encodeValue wordMap name (VBytes x) a =
     (let (i, a1) = getIndex wordMap name a in a1\<lparr>Bytes := AList.update i x (Bytes a1)\<rparr>)"
| "encodeValue wordMap name (VStringMap sm) a =
     (let (i, a1) = getIndex wordMap name a;
          (es, a2) = encodeEntries wordMap sm [] a1
      in a2\<lparr>StringMaps := AList.update i es (StringMaps a2)\<rparr>)"

definition encodeName :: "(string \<rightharpoonup> int) \<Rightarrow> Bag \<Rightarrow> string \<Rightarrow> Attributes \<Rightarrow> Attributes" where
  "encodeName wordMap bag name a =
     (case Get bag name of None \<Rightarrow> a | Some v \<Rightarrow> encodeValue wordMap name v a)"

definition EncodeAttributes :: "Bag \<Rightarrow> string list \<Rightarrow> (string \<rightharpoonup> int) \<Rightarrow> Attributes" where
  "EncodeAttributes bag names wordMap = fold (encodeName wordMap bag) names emptyAttributes"

text \<open>
  The reverse global dictionary as \<^verbatim>\<open>TestProtoBag\<close> and \<^verbatim>\<open>NewGRPCServer\<close> build it: every
  word is mapped to its position, a later position replacing an earlier one.
\<close>

fun revDictFrom :: "nat \<Rightarrow> string list \<Rightarrow> (string \<rightharpoonup> int) \<Rightarrow> (string \<rightharpoonup> int)" where
  "revDictFrom k [] m = m"
| "revDictFrom k (v # vs) m = revDictFrom (Suc k) vs (m(v \<mapsto> int k))"

definition revDict :: "string list \<Rightarrow> (string \<rightharpoonup> int)" where
  "revDict globalDict = revDictFrom 0 globalDict Map.empty"

section \<open>Invariants of the dispatcher\<close>

text \<open>
  \<open>executing\<close> counts the running closures that have not sent their response yet.
  The invariants say: the wait group counts exactly the closures that are queued or
  running, and no panic has happened (\<open>inv_wg\<close>); a tracker is released only once the
  dispatcher has returned (\<open>inv_done\<close>); after the return the counter is zero
  (\<open>inv_closed\<close>); of \<open>n\<close> messages each is still unread, or pending in a closure, or
  answered (\<open>inv_count\<close>); and the loop is left only when the input is exhausted, with
  the result \<^verbatim>\<open>RecvMsg\<close> gave (\<open>inv_read\<close>).
\<close>

definition executing :: "(('q, 'r, 'b) work \<times> stage) list \<Rightarrow> nat" where
  "executing rs = length (filter (\<lambda>p. snd p = Executing) rs)"

definition inv_wg :: "('q, 'r, 'b, 't) dstate \<Rightarrow> bool" where
  "inv_wg d = (phase d \<noteq> Panicked \<and> wg d = int (length (queue d) + length (running d)))"

definition inv_done :: "('q, 'r, 'b, 't) dstate \<Rightarrow> bool" where
  "inv_done d = (if reqTrackerDone d \<or> respTrackerDone d then (case phase d of Closed r \<Rightarrow> True | _ \<Rightarrow> False) else True)"

definition inv_closed :: "('q, 'r, 'b, 't) dstate \<Rightarrow> bool" where
  "inv_closed d = (case phase d of Closed r \<Rightarrow> wg d = 0 | _ \<Rightarrow> True)"

definition inv_count :: "nat \<Rightarrow> ('q, 'r, 'b, 't) dstate \<Rightarrow> bool" where
  "inv_count n d = (length (sent d) + length (queue d) + executing (running d) + length (inbox d) = n)"

definition inv_read :: "string option \<Rightarrow> ('q, 'r, 'b, 't) dstate \<Rightarrow> bool" where
  "inv_read fin d = (closing d = fin \<and> (phase d = Reading \<or> (inbox d = [] \<and> (phase d = Draining fin \<or> phase d = Closed fin))))"

definition dinv :: "nat \<Rightarrow> string option \<Rightarrow> ('q, 'r, 'b, 't) dstate \<Rightarrow> bool" where
  "dinv n fin d = (inv_wg d \<and> inv_done d \<and> inv_closed d \<and> inv_count n d \<and> inv_read fin d)"

text \<open>
  \<open>todo\<close> measures the work the pool still has: it decreases with every step of a worker.
\<close>

definition todo :: "('q, 'r, 'b, 't) dstate \<Rightarrow> nat" where
  "todo d = 3 * length (queue d) + length (running d) + executing (running d)"

section \<open>Auxiliary notions for the codec\<close>

text \<open>
  \<open>consistent wordMap g\<close>: the reverse dictionary maps a word only to a position of the
  global list \<open>g\<close> that holds this word. \<open>wf_value\<close>: a string map has no key twice, as
  every Go map. \<open>allEntries\<close> lists the entries of all typed maps of a message, each with
  the value the decoder builds for it; \<open>keys\<close> are the name indices of a message.
  \<open>sound g B a\<close>: every entry of \<open>a\<close> resolves to a name and a value that \<open>B\<close> holds under
  this name. \<open>resolved\<close> relates index pairs to the string pairs they resolve to.
  \<open>stepOK\<close> is what encoding one name establishes. \<open>unresolved\<close>: the index an error
  carries does not resolve.
\<close>

definition consistent :: "(string \<rightharpoonup> int) \<Rightarrow> string list \<Rightarrow> bool" where
  "consistent wordMap g = (\<forall>w i. wordMap w = Some i \<longrightarrow> 0 \<le> i \<and> nat i < length g \<and> g ! nat i = w)"

fun wf_value :: "AttributeValue \<Rightarrow> bool" where
  "wf_value (VStringMap sm) = distinct (map fst sm)"
| "wf_value _ = True"

definition allEntries :: "string list \<Rightarrow> Attributes \<Rightarrow> (int \<times> (error + AttributeValue)) list" where
  "allEntries g a =
     (let w = Words a in
      map (\<lambda>(i, x). (i, decodeString g w x)) (Strings a) @
      map (\<lambda>(i, x). (i, Inr (VInt64 x))) (Int64S a) @
      map (\<lambda>(i, x). (i, Inr (VFloat64 x))) (Doubles a) @
      map (\<lambda>(i, x). (i, Inr (VBool x))) (Bools a) @
      map (\<lambda>(i, x). (i, Inr (VTimestamp x))) (Timestamps a) @
      map (\<lambda>(i, x). (i, Inr (VDuration x))) (Durations a) @
      map (\<lambda>(i, x). (i, Inr (VBytes x))) (Bytes a) @
      map (\<lambda>(i, x). (i, decodeStringMap g w x)) (StringMaps a))"

definition keys :: "Attributes \<Rightarrow> int set" where
  "keys a = fst ` set (Strings a) \<union> fst ` set (Int64S a) \<union> fst ` set (Doubles a) \<union>
     fst ` set (Bools a) \<union> fst ` set (Timestamps a) \<union> fst ` set (Durations a) \<union>
     fst ` set (Bytes a) \<union> fst ` set (StringMaps a)"

definition sound :: "string list \<Rightarrow> Bag \<Rightarrow> Attributes \<Rightarrow> bool" where
  "sound g B a = (\<forall>(i, r) \<in> set (allEntries g a).
      \<exists>n v. lookup i g (Words a) = Some n \<and> r = Inr v \<and> Get B n = Some v)"

definition resolved :: "string list \<Rightarrow> string list \<Rightarrow> (int \<times> int) list \<Rightarrow> (string \<times> string) list \<Rightarrow> bool" where
  "resolved g w es kvs = list_all2 (\<lambda>(i, j) (k, v). lookup i g w = Some k \<and> lookup j g w = Some v) es kvs"

definition stepOK :: "string list \<Rightarrow> Bag \<Rightarrow> string \<Rightarrow> Attributes \<Rightarrow> Attributes \<Rightarrow> bool" where
  "stepOK g B name a a' =
     (sound g B a' \<and> (\<exists>ws. Words a' = Words a @ ws) \<and> keys a \<subseteq> keys a' \<and>
      (\<exists>i \<in> keys a'. lookup i g (Words a') = Some name))"

fun unresolved :: "string list \<Rightarrow> string list \<Rightarrow> error \<Rightarrow> bool" where
  "unresolved g w (InvalidAttributeIndex j) = (lookup j g w = None)"

section \<open>Concrete data\<close>

text \<open>
  The dictionaries and the message of \<^verbatim>\<open>TestProtoBag\<close>, the message of
  \<^verbatim>\<open>TestProtoBag_Errors\<close>, and a two-layer bag. \<open>t9\<close> and \<open>d1\<close> stand for the test's
  timestamp and duration, \<open>42.0\<close> is written as its bit pattern.
\<close>

definition globalDict :: "string list" where
  "globalDict = [''G0'', ''G1'', ''G2'', ''G3'', ''G4'', ''G5'', ''G6'', ''G7'', ''G8'', ''G9'']"

definition messageDict :: "string list" where
  "messageDict = [''M1'', ''M2'', ''M3'', ''M4'', ''M5'', ''M6'', ''M7'', ''M8'', ''M9'', ''M10'']"

definition t9 :: int where "t9 = 978310861000000009"

definition d1 :: int where "d1 = 42 * Second"

definition protoBagAttrs :: Attributes where
  "protoBagAttrs =
     \<lparr>Words = messageDict, Strings = [(4, 5)], Int64S = [(6, 42)],
      Doubles = [(7, 4631107791820423168)], Bools = [(-1, True)], Timestamps = [(-2, t9)],
      Durations = [(-3, d1)], Bytes = [(-4, [11])], StringMaps = [(-5, [(-6, -7)])]\<rparr>"

definition errorAttrs :: Attributes where
  "errorAttrs =
     emptyAttributes\<lparr>Words := [''M0'', ''M1'', ''M2'', ''M3'', ''M4'', ''M5'', ''M6'', ''M7'', ''M8'', ''M9''],
                      Strings := [(-24, 25)]\<rparr>"

definition parentBag :: Bag where
  "parentBag =
     Bag [''G4'' \<mapsto> VString ''G5'', ''M1'' \<mapsto> VBool True, ''gone'' \<mapsto> VInt64 1] {} None"

definition childBag :: Bag where
  "childBag =
     Bag [''M5'' \<mapsto> VStringMap [(''M6'', ''M7'')], ''G6'' \<mapsto> VInt64 42] {''gone''}
       (Some parentBag)"

text \<open>
  A server for concrete runs. Its global dictionary is the one \<^verbatim>\<open>NewGRPCServer\<close> of the
  unary \<^verbatim>\<open>grpcServer.go\<close> installs; its tracker decodes every message on its own; its
  aspect dispatcher accepts everything and leaves the response bag empty. \<open>req1\<close> and
  \<open>req2\<close> decode, \<open>badReq\<close> carries the indices of \<^verbatim>\<open>TestProtoBag_Errors\<close> and does not.
\<close>

definition words :: "string list" where
  "words = [''request.size'']"

definition okStatus :: Status where
  "okStatus = \<lparr>Code = OK, Message = [], Details = []\<rparr>"

definition testServer :: "(Attributes, Bag, unit) grpcServer" where
  "testServer =
     \<lparr>Check = (\<lambda>requestBag responseBag. (okStatus, responseBag)),
      Report = (\<lambda>requestBag responseBag. (okStatus, responseBag)),
      QuotaFn = (\<lambda>requestBag responseBag qma.
         ((Some \<lparr>qmr_Amount = qma_Amount qma, qmr_Expiration = 0\<rparr>, okStatus), responseBag)),
      NewTracker = (),
      ApplyProto = (\<lambda>t a. (case DecodeAttributes a words of
                               Inl e \<Rightarrow> Inl ''attribute index is not defined in the available dictionaries''
                             | Inr b \<Rightarrow> Inr b, t)),
      ApplyBag = (\<lambda>t b. (emptyAttributes, t)),
      GetMutableBag = Bag Map.empty {} None,
      NewAttributes = emptyAttributes,
      workers = 1\<rparr>"

definition req1 :: "Attributes CheckRequest" where
  "req1 = \<lparr>RequestIndex = 1,
            AttributeUpdate = emptyAttributes\<lparr>Words := [''source.name''], Strings := [(-1, -1)]\<rparr>\<rparr>"

definition req2 :: "Attributes CheckRequest" where
  "req2 = \<lparr>RequestIndex = 2, AttributeUpdate = emptyAttributes\<lparr>Int64S := [(0, 1024)]\<rparr>\<rparr>"

definition badReq :: "Attributes CheckRequest" where
  "badReq = \<lparr>RequestIndex = 1, AttributeUpdate = emptyAttributes\<lparr>Strings := [(-24, 25)]\<rparr>\<rparr>"

section \<open>The dispatcher keeps its invariants\<close>

lemma lists_empty: "int (length xs + length ys) = 0 \<Longrightarrow> xs = [] \<and> ys = []"
  by (metis add_is_0 length_0_conv of_nat_eq_0_iff)

lemma executing_append: "executing (xs @ ys) = executing xs + executing ys"
  by (simp add: executing_def)

lemma executing_update:
  "i < length rs \<Longrightarrow> snd (rs ! i) = Executing \<Longrightarrow> executing (rs[i := (w, Responded)]) + 1 = executing rs"
proof (induction rs arbitrary: i)
  case Nil then show ?case by simp
next
  case (Cons a rs)
  then show ?case by (cases i) (auto simp: executing_def)
qed

lemma executing_remove:
  "i < length rs \<Longrightarrow> snd (rs ! i) = Responded \<Longrightarrow> executing (take i rs @ drop (Suc i) rs) = executing rs"
proof (induction rs arbitrary: i)
  case Nil then show ?case by simp
next
  case (Cons a rs)
  then show ?case by (cases i) (auto simp: executing_def)
qed

lemma recv_cases:
  obtains (eof) "inbox d = []" "recv s m d = d\<lparr>phase := Draining (closing d)\<rparr>"
  | (bad) request rest err tr where "inbox d = request # rest"
      "ApplyProto s (reqTracker d) (requestAttrs m request) = (Inl err, tr)"
      "recv s m d = d\<lparr>inbox := rest, reqTracker := tr,
                    sent := sent d @ [setResult m (InvalidWithDetails invalid_msg (NewBadRequest ''attribute_update'' err)) (newResponse m)]\<rparr>"
  | (good) request rest requestBag tr where "inbox d = request # rest"
      "ApplyProto s (reqTracker d) (requestAttrs m request) = (Inr requestBag, tr)"
      "recv s m d = d\<lparr>inbox := rest, reqTracker := tr, wg := wg d + 1,
                    queue := queue d @ [\<lparr>w_request = request, w_response = newResponse m, w_requestBag = requestBag\<rparr>]\<rparr>"
proof (cases "inbox d")
  case Nil
  then show ?thesis using eof by (simp add: recv_def)
next
  case (Cons request rest)
  obtain res tr where a: "ApplyProto s (reqTracker d) (requestAttrs m request) = (res, tr)"
    by (cases "ApplyProto s (reqTracker d) (requestAttrs m request)")
  show ?thesis
  proof (cases res)
    case (Inl err)
    then show ?thesis using bad[of request rest err tr] Cons a by (simp add: recv_def)
  next
    case (Inr requestBag)
    then show ?thesis using good[of request rest requestBag tr] Cons a
      by (simp add: recv_def ScheduleWork_def)
  qed
qed

lemma respond_fields:
  "phase (respond s m i d) = phase d" "inbox (respond s m i d) = inbox d"
  "closing (respond s m i d) = closing d" "wg (respond s m i d) = wg d"
  "queue (respond s m i d) = queue d" 
  "reqTrackerDone (respond s m i d) = reqTrackerDone d" "respTrackerDone (respond s m i d) = respTrackerDone d"
  "length (running (respond s m i d)) = length (running d)"
  "length (sent (respond s m i d)) = Suc (length (sent d))"
  by (simp_all add: respond_def Let_def split: prod.splits)

lemma respond_running:
  "\<exists>w. running (respond s m i d) = (running d)[i := (w, Responded)]"
  by (auto simp add: respond_def Let_def split: prod.splits)

lemma step_cases:
  assumes "step s m a d = Some d'"
  obtains (Recv) "a = Recv" "phase d = Reading" "d' = recv s m d"
  | (Start) "a = Start" "phase d \<noteq> Panicked" "queue d \<noteq> []" "length (running d) < workers s"
      "d' = d\<lparr>queue := tl (queue d), running := running d @ [(hd (queue d), Executing)]\<rparr>"
  | (Respond) i where "a = Respond i" "phase d \<noteq> Panicked" "i < length (running d)"
      "snd (running d ! i) = Executing" "d' = respond s m i d"
  | (Finish) i where "a = Finish i" "phase d \<noteq> Panicked" "i < length (running d)"
      "snd (running d ! i) = Responded" "d' = finish i d"
  | (Wait) r where "a = Wait" "phase d = Draining r" "wg d = 0"
      "d' = d\<lparr>phase := Closed r, respTrackerDone := True, reqTrackerDone := True\<rparr>"
  using assms by (cases a) (auto split: if_splits phase.splits)

lemma inv_wg_recv: "inv_wg d \<Longrightarrow> inv_wg (recv s m d)"
  by (rule recv_cases[of d s m]) (auto simp: inv_wg_def)

lemma inv_wg_step:
  assumes "inv_wg d" "step s m a d = Some d'"
  shows "inv_wg d'"
  using assms(2)
proof (cases rule: step_cases)
  case Recv
  then show ?thesis using assms(1) by (simp add: inv_wg_recv)
next
  case Start
  then show ?thesis using assms(1) by (cases "queue d") (auto simp: inv_wg_def)
next
  case (Respond i)
  then show ?thesis using assms(1) by (simp add: inv_wg_def respond_fields)
next
  case (Finish i)
  then show ?thesis using assms(1) by (auto simp: inv_wg_def finish_def)
next
  case (Wait r)
  then show ?thesis using assms(1) by (simp add: inv_wg_def)
qed

lemma inv_done_recv: "inv_done d \<Longrightarrow> phase d = Reading \<Longrightarrow> inv_done (recv s m d)"
  by (rule recv_cases[of d s m]) (auto simp: inv_done_def)

lemma inv_done_step:
  assumes "inv_done d" "step s m a d = Some d'" "inv_wg d"
  shows "inv_done d'"
  using assms(2)
proof (cases rule: step_cases)
  case Recv
  then show ?thesis using assms(1) by (simp add: inv_done_recv)
next
  case Start
  then show ?thesis using assms(1) by (auto simp: inv_done_def)
next
  case (Respond i)
  then show ?thesis using assms(1) by (simp add: inv_done_def respond_fields)
next
  case (Finish i)
  then show ?thesis using assms(1,3) by (auto simp: inv_done_def inv_wg_def finish_def)
next
  case (Wait r)
  then show ?thesis using assms(1) by (simp add: inv_done_def)
qed

lemma inv_count_recv: "inv_count n d \<Longrightarrow> inv_count n (recv s m d)"
  by (rule recv_cases[of d s m]) (auto simp: inv_count_def)

lemma inv_count_step:
  assumes "inv_count n d" "step s m a d = Some d'"
  shows "inv_count n d'"
  using assms(2)
proof (cases rule: step_cases)
  case Recv
  then show ?thesis using assms(1) by (simp add: inv_count_recv)
next
  case Start
  then show ?thesis using assms(1)
    by (cases "queue d") (auto simp: inv_count_def executing_append executing_def)
next
  case (Respond i)
  obtain w where "running d' = (running d)[i := (w, Responded)]"
    using respond_running[of s m i d] Respond by auto
  then show ?thesis using assms(1) Respond executing_update[of i "running d" w]
    by (simp add: inv_count_def respond_fields)
next
  case (Finish i)
  then show ?thesis using assms(1) by (auto simp: inv_count_def finish_def executing_remove)
next
  case (Wait r)
  then show ?thesis using assms(1) by (simp add: inv_count_def)
qed

lemma inv_read_recv: "inv_read fin d \<Longrightarrow> phase d = Reading \<Longrightarrow> inv_read fin (recv s m d)"
  by (rule recv_cases[of d s m]) (auto simp: inv_read_def)

lemma inv_read_step:
  assumes "inv_read fin d" "inv_wg d" "step s m a d = Some d'"
  shows "inv_read fin d'"
  using assms(3)
proof (cases rule: step_cases)
  case Recv
  then show ?thesis using assms(1) by (simp add: inv_read_recv)
next
  case Start
  then show ?thesis using assms(1) by (auto simp: inv_read_def)
next
  case (Respond i)
  then show ?thesis using assms(1) by (simp add: inv_read_def respond_fields)
next
  case (Finish i)
  then show ?thesis using assms(1,2) by (auto simp: inv_read_def inv_wg_def finish_def)
next
  case (Wait r)
  then show ?thesis using assms(1) by (auto simp: inv_read_def)
qed

lemma inv_closed_recv: "phase d = Reading \<Longrightarrow> inv_closed (recv s m d)"
  by (rule recv_cases[of d s m]) (auto simp: inv_closed_def)

lemma inv_closed_step:
  assumes "inv_closed d" "inv_wg d" "step s m a d = Some d'"
  shows "inv_closed d'"
  using assms(3)
proof (cases rule: step_cases)
  case Recv
  then show ?thesis by (simp add: inv_closed_recv)
next
  case Start
  then show ?thesis using assms(1,2) by (auto simp: inv_closed_def inv_wg_def split: phase.splits)
next
  case (Respond i)
  then show ?thesis using assms(1,2)
    by (auto simp: inv_closed_def inv_wg_def respond_fields split: phase.splits)
next
  case (Finish i)
  then show ?thesis using assms(1,2)
    by (auto simp: inv_closed_def inv_wg_def finish_def split: phase.splits)
next
  case (Wait r)
  then show ?thesis by (simp add: inv_closed_def)
qed

lemma inv_init: "dinv (length msgs) fin (init s msgs fin)"
  by (simp add: dinv_def inv_wg_def inv_done_def inv_closed_def inv_count_def inv_read_def init_def
      executing_def)

lemma inv_step: "dinv n fin d \<Longrightarrow> step s m a d = Some d' \<Longrightarrow> dinv n fin d'"
  unfolding dinv_def
  by (metis inv_wg_step inv_done_step inv_closed_step inv_count_step inv_read_step)

lemma inv_run: "dinv n fin d \<Longrightarrow> run s m sched d = Some d' \<Longrightarrow> dinv n fin d'"
proof (induction sched arbitrary: d)
  case Nil
  then show ?case by simp
next
  case (Cons a sched)
  then show ?case by (auto split: option.splits dest: inv_step)
qed

lemma inv_reachable: "run s m sched (init s msgs fin) = Some d \<Longrightarrow> dinv (length msgs) fin d"
  using inv_run inv_init by blast

lemmas eval_defs = testServer_def CheckMethod_def init_def recv_def ScheduleWork_def respond_def
  finish_def handleCheck_def
  req1_def req2_def badReq_def words_def okStatus_def emptyAttributes_def DecodeAttributes_def decodeAll_def
  andThen_def lookup_def decodeString_def decodeStringMap_def InvalidWithDetails_def NewBadRequest_def
  zeroStatus_def Let_def

lemma handlers_echo_RequestIndex:
  "resp_RequestIndex (fst (handleCheck s requestBag responseBag req resp)) = RequestIndex req"
  "resp_RequestIndex (fst (handleReport s requestBag responseBag req' resp')) = RequestIndex req'"
  "resp_RequestIndex (fst (handleQuota s requestBag responseBag req'' resp'')) = RequestIndex req''"
  by (simp_all add: handleCheck_def handleReport_def handleQuota_def Let_def
      split: prod.splits option.splits)

text \<open>
  Two requests with the indices 1 and 2 on a pool of two workers, the first one held up
  in its executor: the responses are written in the order 2, 1, each with the index of
  its request.
\<close>

lemma concurrent_requests_keep_their_index:
  "\<exists>d. run (testServer\<lparr>workers := 2\<rparr>) (CheckMethod testServer)
          [Recv, Recv, Start, Start, Respond 1, Respond 0, Finish 0, Finish 0, Recv, Wait]
          (init testServer [req1, req2] None) = Some d \<and>
       phase d = Closed None \<and> map resp_RequestIndex (sent d) = [2, 1]"
  by (simp add: eval_defs)

section \<open>The dispatcher reads its whole input and can always finish\<close>

lemma run_append:
  "run s m (xs @ ys) d = (case run s m xs d of None \<Rightarrow> None | Some d' \<Rightarrow> run s m ys d')"
  by (induction xs arbitrary: d) (auto split: option.splits)

lemma read_all:
  "phase d = Reading \<Longrightarrow>
   \<exists>d'. run s m (replicate (length (inbox d)) Recv) d = Some d' \<and> phase d' = Reading \<and>
        inbox d' = [] \<and> running d' = running d \<and> closing d' = closing d \<and>
        length (sent d') + length (queue d') = length (sent d) + length (queue d) + length (inbox d)"
proof (induction "length (inbox d)" arbitrary: d)
  case 0
  then show ?case by simp
next
  case (Suc n)
  then obtain request rest where i: "inbox d = request # rest" by (cases "inbox d") auto
  let ?d1 = "recv s m d"
  have d1: "phase ?d1 = Reading \<and> inbox ?d1 = rest \<and> running ?d1 = running d \<and>
            closing ?d1 = closing d \<and>
            length (sent ?d1) + length (queue ?d1) = length (sent d) + length (queue d) + 1"
    using i Suc.prems by (rule_tac recv_cases[of d s m]) auto
  then have "n = length (inbox ?d1)" using Suc.hyps(2) i by simp
  from Suc.hyps(1)[OF this] d1 obtain d' where
    d': "run s m (replicate (length (inbox ?d1)) Recv) ?d1 = Some d' \<and> phase d' = Reading \<and>
        inbox d' = [] \<and> running d' = running ?d1 \<and> closing d' = closing ?d1 \<and>
        length (sent d') + length (queue d') =
          length (sent ?d1) + length (queue ?d1) + length (inbox ?d1)"
    by blast
  have "run s m (replicate (length (inbox d)) Recv) d = Some d'"
    using d' d1 i Suc.prems by simp
  then show ?case using d' d1 i by (intro exI[where x = d']) simp
qed

lemma executing_pos: "executing rs > 0 \<Longrightarrow> \<exists>i < length rs. snd (rs ! i) = Executing"
proof (induction rs)
  case Nil
  then show ?case by (simp add: executing_def)
next
  case (Cons a rs)
  show ?case
  proof (cases "snd a = Executing")
    case True
    then have "0 < length (a # rs) \<and> snd ((a # rs) ! 0) = Executing" by simp
    then show ?thesis by blast
  next
    case False
    then have "executing rs > 0" using Cons.prems by (simp add: executing_def)
    then obtain i where "i < length rs" "snd (rs ! i) = Executing" using Cons.IH by blast
    then have "Suc i < length (a # rs) \<and> snd ((a # rs) ! Suc i) = Executing" by simp
    then show ?thesis by blast
  qed
qed

lemma executing_zero: "executing rs = 0 \<Longrightarrow> i < length rs \<Longrightarrow> snd (rs ! i) = Responded"
proof (induction rs arbitrary: i)
  case Nil
  then show ?case by simp
next
  case (Cons a rs)
  have a: "snd a = Responded" using Cons.prems(1) by (cases "snd a") (auto simp: executing_def)
  have r: "executing rs = 0" using Cons.prems(1) a by (simp add: executing_def)
  show ?case using Cons.prems(2) a Cons.IH[OF r] by (cases i) auto
qed

lemma drain:
  assumes w: "0 < workers s"
  shows "phase d = Draining r \<Longrightarrow> wg d = int (length (queue d) + length (running d)) \<Longrightarrow>
         \<exists>sched d'. run s m sched d = Some d' \<and> phase d' = Closed r"
proof (induction "todo d" arbitrary: d rule: less_induct)
  case less
  show ?case
  proof (cases "running d = []")
    case True
    show ?thesis
    proof (cases "queue d = []")
      case True
      then have "run s m [Wait] d = Some (d\<lparr>phase := Closed r, respTrackerDone := True, reqTrackerDone := True\<rparr>)"
        using less.prems \<open>running d = []\<close> by simp
      then show ?thesis by (intro exI[where x = "[Wait]"] exI) auto
    next
      case False
      let ?d1 = "d\<lparr>queue := tl (queue d), running := running d @ [(hd (queue d), Executing)]\<rparr>"
      have st: "step s m Start d = Some ?d1" using False True w less.prems by simp
      have "todo ?d1 < todo d" using False True
        by (cases "queue d") (auto simp: todo_def executing_def)
      moreover have "phase ?d1 = Draining r" using less.prems by simp
      moreover have "wg ?d1 = int (length (queue ?d1) + length (running ?d1))"
        using less.prems False by (cases "queue d") auto
      ultimately obtain sched d' where "run s m sched ?d1 = Some d' \<and> phase d' = Closed r"
        using less.hyps by blast
      then have "run s m (Start # sched) d = Some d' \<and> phase d' = Closed r" using st by simp
      then show ?thesis by blast
    qed
  next
    case False
    show ?thesis
    proof (cases "executing (running d) = 0")
      case True
      have i: "0 < length (running d)" "snd (running d ! 0) = Responded"
        using False executing_zero[OF True] by auto
      have pos: "wg d - 1 \<ge> 0" using less.prems(2) False by (cases "running d") auto
      let ?d1 = "finish 0 d"
      have st: "step s m (Finish 0) d = Some ?d1" using i less.prems by simp
      have f: "?d1 = d\<lparr>wg := wg d - 1, running := drop (Suc 0) (running d)\<rparr>"
        using pos by (simp add: finish_def)
      have "todo ?d1 < todo d" using False True
        unfolding f by (cases "running d") (auto simp: todo_def executing_def split: if_splits)
      moreover have "phase ?d1 = Draining r" using less.prems f by simp
      moreover have "wg ?d1 = int (length (queue ?d1) + length (running ?d1))"
        using less.prems False unfolding f by (cases "running d") auto
      ultimately obtain sched d' where "run s m sched ?d1 = Some d' \<and> phase d' = Closed r"
        using less.hyps by blast
      then have "run s m (Finish 0 # sched) d = Some d' \<and> phase d' = Closed r" using st by simp
      then show ?thesis by blast
    next
      case False
      then obtain i where i: "i < length (running d)" "snd (running d ! i) = Executing"
        using executing_pos by blast
      let ?d1 = "respond s m i d"
      have st: "step s m (Respond i) d = Some ?d1" using i less.prems by simp
      obtain w where rw: "running ?d1 = (running d)[i := (w, Responded)]"
        using respond_running[of s m i d] by blast
      have "executing (running ?d1) + 1 = executing (running d)"
        unfolding rw using executing_update[OF i] .
      then have "todo ?d1 < todo d" by (simp add: todo_def respond_fields)
      moreover have "phase ?d1 = Draining r" using less.prems by (simp add: respond_fields)
      moreover have "wg ?d1 = int (length (queue ?d1) + length (running ?d1))"
        using less.prems by (simp add: respond_fields)
      ultimately obtain sched d' where "run s m sched ?d1 = Some d' \<and> phase d' = Closed r"
        using less.hyps by blast
      then have "run s m (Respond i # sched) d = Some d' \<and> phase d' = Closed r" using st by simp
      then show ?thesis by blast
    qed
  qed
qed

lemma closed_all_answered:
  assumes "dinv n fin d" "phase d = Closed r"
  shows "r = fin \<and> inbox d = [] \<and> queue d = [] \<and> running d = [] \<and> length (sent d) = n"
proof -
  have z: "wg d = 0" using assms by (simp add: dinv_def inv_closed_def)
  have "wg d = int (length (queue d) + length (running d))"
    using assms(1) by (simp add: dinv_def inv_wg_def)
  then have e: "queue d = [] \<and> running d = []"
    using z lists_empty[of "queue d" "running d"] by simp
  have f: "r = fin \<and> inbox d = []" using assms by (auto simp: dinv_def inv_read_def)
  have "length (sent d) = n" using assms(1) e f by (simp add: dinv_def inv_count_def executing_def)
  then show ?thesis using e f by simp
qed

lemma can_complete:
  assumes reach: "run s m sched (init s msgs fin) = Some d" and w: "0 < workers s"
  shows "\<exists>sched' d'. run s m sched' d = Some d' \<and> phase d' = Closed fin \<and>
           length (sent d') = length msgs"
proof -
  have i: "dinv (length msgs) fin d" using inv_reachable[OF reach] .
  have draining: "\<exists>sched' d'. run s m sched' d0 = Some d' \<and> phase d' = Closed fin"
    if r0: "run s m sched0 (init s msgs fin) = Some d0" and p0: "phase d0 = Draining r" for sched0 d0 r
  proof -
    have i0: "dinv (length msgs) fin d0" using inv_reachable[OF r0] .
    then have "r = fin" using p0 by (auto simp: dinv_def inv_read_def)
    moreover have "wg d0 = int (length (queue d0) + length (running d0))"
      using i0 by (simp add: dinv_def inv_wg_def)
    ultimately show ?thesis using drain[OF w, of d0 fin m] p0 by simp
  qed
  have ex: "\<exists>sched' d'. run s m sched' d = Some d' \<and> phase d' = Closed fin"
  proof (cases "phase d")
    case Reading
    from read_all[OF Reading, of s m] obtain d1 where
      d1: "run s m (replicate (length (inbox d)) Recv) d = Some d1" "phase d1 = Reading"
        "inbox d1 = []"
      by blast
    let ?d2 = "recv s m d1"
    have p2: "phase ?d2 = Draining (closing d1)" using d1(3) by (simp add: recv_def)
    have r2: "run s m (replicate (length (inbox d)) Recv @ [Recv]) d = Some ?d2"
      using d1 by (simp add: run_append)
    have "run s m (sched @ replicate (length (inbox d)) Recv @ [Recv]) (init s msgs fin) = Some ?d2"
      using reach r2 by (simp add: run_append)
    from draining[OF this p2] obtain sched3 d' where
      "run s m sched3 ?d2 = Some d'" "phase d' = Closed fin" by blast
    then have "run s m ((replicate (length (inbox d)) Recv @ [Recv]) @ sched3) d = Some d' \<and>
               phase d' = Closed fin"
      using r2 by (simp only: run_append option.case)
    then show ?thesis by blast
  next
    case (Draining r)
    then show ?thesis using draining[OF reach] by blast
  next
    case (Closed r)
    then have "r = fin" using i by (auto simp: dinv_def inv_read_def)
    then have "run s m [] d = Some d \<and> phase d = Closed fin" using Closed by simp
    then show ?thesis by blast
  next
    case Panicked
    then show ?thesis using i by (simp add: dinv_def inv_wg_def)
  qed
  then obtain sched' d' where d': "run s m sched' d = Some d'" "phase d' = Closed fin" by blast
  have "run s m (sched @ sched') (init s msgs fin) = Some d'"
    using reach d'(1) by (simp add: run_append)
  then have "dinv (length msgs) fin d'" by (rule inv_reachable)
  then have "length (sent d') = length msgs" using d'(2) closed_all_answered by blast
  then show ?thesis using d' by blast
qed

section \<open>Claims about the dispatcher\<close>

text \<open>
  C7. A single malformed request never aborts its stream. In every state the dispatcher
  can reach, under any interleaving with the workers:
  \<^item> if the reading loop has ended, the whole input was read and the loop ended with what
    \<^verbatim>\<open>RecvMsg\<close> returned at the end of the input (\<^verbatim>\<open>io.EOF\<close> or a transport error);
  \<^item> if the loop is running and the next request's attributes do not decode, the reader's
    own step appends the \<^verbatim>\<open>INVALID_ARGUMENT\<close> response for this request to the stream,
    schedules nothing, and stays in the loop with the rest of the input still to read;
  \<^item> if the next request's attributes decode, the reader's step schedules the closure for
    this request with its bag, whatever was malformed before it;
  \<^item> no request is dropped: every message of the input is still unread, or pending in a
    closure, or answered;
  \<^item> the reader can go on to read all that is left of the input, and every request it
    reads is answered at once or scheduled;
  \<^item> with at least one worker the stream can run to its end from here, closing with the
    result of \<^verbatim>\<open>RecvMsg\<close> and with one response for every request of the input.
\<close>

theorem malformed_request_does_not_abort_stream:
  assumes "run s m sched (init s msgs fin) = Some d"
  shows "(phase d \<noteq> Reading \<longrightarrow> inbox d = [] \<and> (phase d = Draining fin \<or> phase d = Closed fin)) \<and>
         (\<forall>request rest err tr.
            phase d = Reading \<and> inbox d = request # rest \<and>
            ApplyProto s (reqTracker d) (requestAttrs m request) = (Inl err, tr) \<longrightarrow>
            (\<exists>d'. step s m Recv d = Some d' \<and> phase d' = Reading \<and> inbox d' = rest \<and>
                  sent d' = sent d @
                    [setResult m (InvalidWithDetails invalid_msg (NewBadRequest ''attribute_update'' err))
                       (newResponse m)] \<and>
                  Code (InvalidWithDetails invalid_msg (NewBadRequest ''attribute_update'' err)) = INVALID_ARGUMENT \<and>
                  wg d' = wg d \<and> queue d' = queue d \<and> running d' = running d)) \<and>
         (\<forall>request rest requestBag tr.
            phase d = Reading \<and> inbox d = request # rest \<and>
            ApplyProto s (reqTracker d) (requestAttrs m request) = (Inr requestBag, tr) \<longrightarrow>
            (\<exists>d'. step s m Recv d = Some d' \<and> phase d' = Reading \<and> inbox d' = rest \<and>
                  sent d' = sent d \<and> wg d' = wg d + 1 \<and>
                  queue d' = queue d @
                    [\<lparr>w_request = request, w_response = newResponse m, w_requestBag = requestBag\<rparr>] \<and>
                  running d' = running d)) \<and>
         length (sent d) + length (queue d) + executing (running d) + length (inbox d) = length msgs \<and>
         (phase d = Reading \<longrightarrow>
            (\<exists>d'. run s m (replicate (length (inbox d)) Recv) d = Some d' \<and> phase d' = Reading \<and>
                  inbox d' = [] \<and>
                  length (sent d') + length (queue d') =
                    length (sent d) + length (queue d) + length (inbox d))) \<and>
         (0 < workers s \<longrightarrow>
            (\<exists>sched' d'. run s m sched' d = Some d' \<and> phase d' = Closed fin \<and>
                  length (sent d') = length msgs))"
proof -
  have i: "dinv (length msgs) fin d" using inv_reachable[OF assms] .
  then have a: "phase d \<noteq> Reading \<longrightarrow> inbox d = [] \<and> (phase d = Draining fin \<or> phase d = Closed fin)"
    by (auto simp: dinv_def inv_read_def)
  have b: "\<forall>request rest err tr.
            phase d = Reading \<and> inbox d = request # rest \<and>
            ApplyProto s (reqTracker d) (requestAttrs m request) = (Inl err, tr) \<longrightarrow>
            (\<exists>d'. step s m Recv d = Some d' \<and> phase d' = Reading \<and> inbox d' = rest \<and>
                  sent d' = sent d @
                    [setResult m (InvalidWithDetails invalid_msg (NewBadRequest ''attribute_update'' err))
                       (newResponse m)] \<and>
                  Code (InvalidWithDetails invalid_msg (NewBadRequest ''attribute_update'' err)) = INVALID_ARGUMENT \<and>
                  wg d' = wg d \<and> queue d' = queue d \<and> running d' = running d)"
    by (auto simp: recv_def InvalidWithDetails_def)
  have c: "\<forall>request rest requestBag tr.
            phase d = Reading \<and> inbox d = request # rest \<and>
            ApplyProto s (reqTracker d) (requestAttrs m request) = (Inr requestBag, tr) \<longrightarrow>
            (\<exists>d'. step s m Recv d = Some d' \<and> phase d' = Reading \<and> inbox d' = rest \<and>
                  sent d' = sent d \<and> wg d' = wg d + 1 \<and>
                  queue d' = queue d @
                    [\<lparr>w_request = request, w_response = newResponse m, w_requestBag = requestBag\<rparr>] \<and>
                  running d' = running d)"
    by (auto simp: recv_def ScheduleWork_def)
  have n: "length (sent d) + length (queue d) + executing (running d) + length (inbox d) = length msgs"
    using i by (simp add: dinv_def inv_count_def)
  have r: "phase d = Reading \<longrightarrow>
            (\<exists>d'. run s m (replicate (length (inbox d)) Recv) d = Some d' \<and> phase d' = Reading \<and>
                  inbox d' = [] \<and>
                  length (sent d') + length (queue d') =
                    length (sent d) + length (queue d) + length (inbox d))"
  proof
    assume "phase d = Reading"
    from read_all[OF this, of s m] obtain d' where
      "run s m (replicate (length (inbox d)) Recv) d = Some d' \<and> phase d' = Reading \<and>
        inbox d' = [] \<and> running d' = running d \<and> closing d' = closing d \<and>
        length (sent d') + length (queue d') = length (sent d) + length (queue d) + length (inbox d)"
      ..
    then show "\<exists>d'. run s m (replicate (length (inbox d)) Recv) d = Some d' \<and> phase d' = Reading \<and>
                  inbox d' = [] \<and>
                  length (sent d') + length (queue d') =
                    length (sent d) + length (queue d) + length (inbox d)"
      by (intro exI[where x = d']) simp
  qed
  have l: "0 < workers s \<longrightarrow>
            (\<exists>sched' d'. run s m sched' d = Some d' \<and> phase d' = Closed fin \<and>
                  length (sent d') = length msgs)"
    using can_complete[OF assms] by blast
  show ?thesis using a b c n r l by (intro conjI)
qed

text \<open>
  A malformed request followed by a well-formed one. The reader answers the first with
  \<^verbatim>\<open>INVALID_ARGUMENT\<close> and keeps the second to read; run to the end, the stream closes with
  both answered, the second by its worker with status \<open>OK\<close> and its own index.
\<close>

theorem malformed_request_does_not_abort_stream_witness:
  "(\<exists>d'. step testServer (CheckMethod testServer) Recv
          (init testServer [badReq, req2] None) = Some d' \<and>
        phase d' = Reading \<and> inbox d' = [req2] \<and>
        map (\<lambda>r. Code (Result r)) (sent d') = [INVALID_ARGUMENT] \<and>
        wg d' = 0 \<and> queue d' = [] \<and> running d' = []) \<and>
   (\<exists>d. run testServer (CheckMethod testServer)
          [Recv, Recv, Recv, Start, Respond 0, Finish 0, Wait]
          (init testServer [badReq, req2] None) = Some d \<and>
        phase d = Closed None \<and> inbox d = [] \<and> length (sent d) = 2 \<and>
        map (\<lambda>r. Code (Result r)) (sent d) = [INVALID_ARGUMENT, OK] \<and>
        map resp_RequestIndex (sent d) = [0, 2])"
proof -
  have r: "run testServer (CheckMethod testServer) []
             (init testServer [badReq, req2] None :: (_, Attributes CheckResponse, _, _) dstate) =
           Some (init testServer [badReq, req2] None)"
    by simp
  have p: "phase (init testServer [badReq, req2] None :: (_, Attributes CheckResponse, _, _) dstate) = Reading \<and>
           inbox (init testServer [badReq, req2] None :: (_, Attributes CheckResponse, _, _) dstate) = badReq # [req2] \<and>
           ApplyProto testServer
             (reqTracker (init testServer [badReq, req2] None :: (_, Attributes CheckResponse, _, _) dstate))
             (requestAttrs (CheckMethod testServer) badReq) =
             (Inl ''attribute index is not defined in the available dictionaries'', ())"
    by (simp add: eval_defs)
  note t = malformed_request_does_not_abort_stream[OF r, THEN conjunct2, THEN conjunct1, rule_format,
      of badReq "[req2]" "''attribute index is not defined in the available dictionaries''" "()"]
  from t[OF p] obtain d' where d': "step testServer (CheckMethod testServer) Recv
          (init testServer [badReq, req2] None) = Some d' \<and> phase d' = Reading \<and> inbox d' = [req2] \<and>
      sent d' = sent (init testServer [badReq, req2] None :: (_, Attributes CheckResponse, _, _) dstate) @
         [setResult (CheckMethod testServer)
            (InvalidWithDetails invalid_msg
               (NewBadRequest ''attribute_update''
                  ''attribute index is not defined in the available dictionaries''))
            (newResponse (CheckMethod testServer))] \<and>
      Code (InvalidWithDetails invalid_msg
               (NewBadRequest ''attribute_update''
                  ''attribute index is not defined in the available dictionaries'')) = INVALID_ARGUMENT \<and>
      wg d' = wg (init testServer [badReq, req2] None :: (_, Attributes CheckResponse, _, _) dstate) \<and>
      queue d' = queue (init testServer [badReq, req2] None :: (_, Attributes CheckResponse, _, _) dstate) \<and>
      running d' = running (init testServer [badReq, req2] None :: (_, Attributes CheckResponse, _, _) dstate)"
    ..
  have "phase d' = Reading \<and> inbox d' = [req2] \<and>
        map (\<lambda>r. Code (Result r)) (sent d') = [INVALID_ARGUMENT] \<and>
        wg d' = 0 \<and> queue d' = [] \<and> running d' = []"
    using d' by (simp add: eval_defs)
  then have first: "\<exists>d'. step testServer (CheckMethod testServer) Recv
          (init testServer [badReq, req2] None) = Some d' \<and>
        phase d' = Reading \<and> inbox d' = [req2] \<and>
        map (\<lambda>r. Code (Result r)) (sent d') = [INVALID_ARGUMENT] \<and>
        wg d' = 0 \<and> queue d' = [] \<and> running d' = []"
    using d' by (intro exI[where x = d']) simp
  have "\<exists>d. run testServer (CheckMethod testServer)
          [Recv, Recv, Recv, Start, Respond 0, Finish 0, Wait]
          (init testServer [badReq, req2] None) = Some d \<and>
        phase d = Closed None \<and> queue d = [] \<and> running d = [] \<and>
        map (\<lambda>r. Code (Result r)) (sent d) = [INVALID_ARGUMENT, OK] \<and>
        map resp_RequestIndex (sent d) = [0, 2]"
    by (simp add: eval_defs)
  then obtain d where dd: "run testServer (CheckMethod testServer)
          [Recv, Recv, Recv, Start, Respond 0, Finish 0, Wait]
          (init testServer [badReq, req2] None) = Some d \<and>
        phase d = Closed None \<and> queue d = [] \<and> running d = [] \<and>
        map (\<lambda>r. Code (Result r)) (sent d) = [INVALID_ARGUMENT, OK] \<and>
        map resp_RequestIndex (sent d) = [0, 2]"
    ..
  then have run_d: "run testServer (CheckMethod testServer)
          [Recv, Recv, Recv, Start, Respond 0, Finish 0, Wait]
          (init testServer [badReq, req2] None) = Some d"
    by simp
  from malformed_request_does_not_abort_stream[OF run_d]
  have "(phase d \<noteq> Reading \<longrightarrow> inbox d = [] \<and> (phase d = Draining None \<or> phase d = Closed None)) \<and>
        length (sent d) + length (queue d) + executing (running d) + length (inbox d) =
          length [badReq, req2]"
    by simp
  moreover have q: "phase d = Closed None" "queue d = []" "running d = []"
    using dd by simp_all
  ultimately have e: "inbox d = []" "length (sent d) = 2"
    by (auto simp: executing_def)
  have f: "phase d = Closed None" "map (\<lambda>r. Code (Result r)) (sent d) = [INVALID_ARGUMENT, OK]"
    "map resp_RequestIndex (sent d) = [0, 2]"
    using dd by simp_all
  have second: "\<exists>d. run testServer (CheckMethod testServer)
          [Recv, Recv, Recv, Start, Respond 0, Finish 0, Wait]
          (init testServer [badReq, req2] None) = Some d \<and>
        phase d = Closed None \<and> inbox d = [] \<and> length (sent d) = 2 \<and>
        map (\<lambda>r. Code (Result r)) (sent d) = [INVALID_ARGUMENT, OK] \<and>
        map resp_RequestIndex (sent d) = [0, 2]"
    using run_d e f by (intro exI[where x = d] conjI)
  show ?thesis using first second by (rule conjI)
qed

text \<open>
  C4. Drain correctness. In every state the dispatcher can reach, under any interleaving:
  \<^verbatim>\<open>wg.Done()\<close> never panics and the counter equals the number of closures queued or
  running; \<^verbatim>\<open>wg.Wait()\<close> does not return while the counter is nonzero; a step that ends in
  \<open>Closed\<close> starts from counter zero with nothing queued and nothing running; and once the
  dispatcher has returned, or a tracker has been released, the counter is zero, no closure
  is queued or running, the whole input was read and every request has its response.
\<close>

theorem drain_waits_for_all_work:
  assumes "run s m sched (init s msgs fin) = Some d"
  shows "phase d \<noteq> Panicked \<and>
         wg d = int (length (queue d) + length (running d)) \<and>
         (wg d \<noteq> 0 \<longrightarrow> step s m Wait d = None) \<and>
         (\<forall>a d' r. step s m a d = Some d' \<and> phase d' = Closed r \<longrightarrow>
              wg d = 0 \<and> queue d = [] \<and> running d = []) \<and>
         ((\<exists>r. phase d = Closed r) \<or> reqTrackerDone d \<or> respTrackerDone d \<longrightarrow>
              phase d = Closed fin \<and> wg d = 0 \<and> queue d = [] \<and> running d = [] \<and>
              inbox d = [] \<and> length (sent d) = length msgs)"
proof -
  have i: "dinv (length msgs) fin d" using inv_reachable[OF assms] .
  then have w: "phase d \<noteq> Panicked" "wg d = int (length (queue d) + length (running d))"
    by (simp_all add: dinv_def inv_wg_def)
  have blocked: "wg d \<noteq> 0 \<longrightarrow> step s m Wait d = None"
    by (simp split: phase.splits)
  have closing_step: "\<forall>a d' r. step s m a d = Some d' \<and> phase d' = Closed r \<longrightarrow>
              wg d = 0 \<and> queue d = [] \<and> running d = []"
  proof (intro allI impI)
    fix a d' r assume h: "step s m a d = Some d' \<and> phase d' = Closed r"
    then have st: "step s m a d = Some d'" and cl: "phase d' = Closed r" by simp_all
    have "wg d = 0"
      using st
    proof (cases rule: step_cases)
      case Recv
      then have "phase d' \<noteq> Closed r"
        by (rule_tac recv_cases[of d s m]) auto
      then show ?thesis using cl by simp
    next
      case Start
      then have "phase d = Closed r" using cl by simp
      then show ?thesis using i by (simp add: dinv_def inv_closed_def)
    next
      case (Respond k)
      then have "phase d = Closed r" using cl by (simp add: respond_fields)
      then show ?thesis using i by (simp add: dinv_def inv_closed_def)
    next
      case (Finish k)
      then have "phase d = Closed r" using cl by (auto simp: finish_def split: if_splits)
      then show ?thesis using i by (simp add: dinv_def inv_closed_def)
    next
      case (Wait r')
      then show ?thesis by simp
    qed
    then show "wg d = 0 \<and> queue d = [] \<and> running d = []"
      using w(2) lists_empty[of "queue d" "running d"] by simp
  qed
  have closed: "(\<exists>r. phase d = Closed r) \<or> reqTrackerDone d \<or> respTrackerDone d \<longrightarrow>
              phase d = Closed fin \<and> wg d = 0 \<and> queue d = [] \<and> running d = [] \<and>
              inbox d = [] \<and> length (sent d) = length msgs"
  proof
    assume "(\<exists>r. phase d = Closed r) \<or> reqTrackerDone d \<or> respTrackerDone d"
    then obtain r where r: "phase d = Closed r"
      using i by (auto simp: dinv_def inv_done_def split: phase.splits if_splits)
    then have f: "phase d = Closed fin" "inbox d = []" using i by (auto simp: dinv_def inv_read_def)
    show "phase d = Closed fin \<and> wg d = 0 \<and> queue d = [] \<and> running d = [] \<and>
              inbox d = [] \<and> length (sent d) = length msgs"
    proof -
      have z: "wg d = 0" using i r by (simp add: dinv_def inv_closed_def)
      then have e: "queue d = [] \<and> running d = []"
        using w(2) lists_empty[of "queue d" "running d"] by simp
      have "length (sent d) = length msgs"
        using i e f by (simp add: dinv_def inv_count_def executing_def)
      then show ?thesis using z e f by simp
    qed
  qed
  show ?thesis using w blocked closing_step closed by (intro conjI)
qed

text \<open>
  The pool has one worker and two closures are scheduled. While the first is held up in
  its executor, and again while only the second is left, \<^verbatim>\<open>wg.Wait()\<close> does not return;
  when both have finished it does.
\<close>

theorem drain_waits_for_all_work_witness:
  "run testServer (CheckMethod testServer) [Recv, Recv, Recv, Start, Wait]
      (init testServer [req1, req2] None) = None \<and>
   run testServer (CheckMethod testServer) [Recv, Recv, Recv, Start, Respond 0, Finish 0, Wait]
      (init testServer [req1, req2] None) = None \<and>
   (\<exists>d. run testServer (CheckMethod testServer)
           [Recv, Recv, Recv, Start, Respond 0, Finish 0, Start, Respond 0, Finish 0, Wait]
           (init testServer [req1, req2] None) = Some d \<and>
        phase d = Closed None \<and> wg d = 0 \<and> queue d = [] \<and> running d = [] \<and>
        reqTrackerDone d \<and> respTrackerDone d \<and>
        length (sent d) = 2 \<and> map resp_RequestIndex (sent d) = [1, 2])"
proof -
  have a: "run testServer (CheckMethod testServer) [Recv, Recv, Recv, Start, Wait]
      (init testServer [req1, req2] None) = None"
    by (simp add: eval_defs)
  have b: "run testServer (CheckMethod testServer) [Recv, Recv, Recv, Start, Respond 0, Finish 0, Wait]
      (init testServer [req1, req2] None) = None"
    by (simp add: eval_defs)
  have "\<exists>d. run testServer (CheckMethod testServer)
           [Recv, Recv, Recv, Start, Respond 0, Finish 0, Start, Respond 0, Finish 0, Wait]
           (init testServer [req1, req2] None) = Some d \<and>
        phase d = Closed None \<and> reqTrackerDone d \<and> respTrackerDone d \<and>
        map resp_RequestIndex (sent d) = [1, 2]"
    by (simp add: eval_defs)
  then obtain d where dd: "run testServer (CheckMethod testServer)
           [Recv, Recv, Recv, Start, Respond 0, Finish 0, Start, Respond 0, Finish 0, Wait]
           (init testServer [req1, req2] None) = Some d \<and>
        phase d = Closed None \<and> reqTrackerDone d \<and> respTrackerDone d \<and>
        map resp_RequestIndex (sent d) = [1, 2]"
    ..
  then have d: "run testServer (CheckMethod testServer)
           [Recv, Recv, Recv, Start, Respond 0, Finish 0, Start, Respond 0, Finish 0, Wait]
           (init testServer [req1, req2] None) = Some d"
      "phase d = Closed None" "reqTrackerDone d" "respTrackerDone d"
      "map resp_RequestIndex (sent d) = [1, 2]"
    by simp_all
  from drain_waits_for_all_work[OF d(1)] d(2)
  have "wg d = 0 \<and> queue d = [] \<and> running d = [] \<and> length (sent d) = length [req1, req2]"
    by simp
  then have c: "\<exists>d. run testServer (CheckMethod testServer)
           [Recv, Recv, Recv, Start, Respond 0, Finish 0, Start, Respond 0, Finish 0, Wait]
           (init testServer [req1, req2] None) = Some d \<and>
        phase d = Closed None \<and> wg d = 0 \<and> queue d = [] \<and> running d = [] \<and>
        reqTrackerDone d \<and> respTrackerDone d \<and>
        length (sent d) = 2 \<and> map resp_RequestIndex (sent d) = [1, 2]"
    using d by (intro exI[where x = d]) simp
  show ?thesis using a b c by (intro conjI)
qed

text \<open>
  C2. The response's \<^verbatim>\<open>RequestIndex\<close> is to equal the request's on every path that emits
  a response. The handlers do echo it (\<open>handlers_echo_RequestIndex\<close>), but the
  decode-failure branch of \<^verbatim>\<open>dispatcher\<close> sends the fresh response of \<^verbatim>\<open>getState\<close> with only
  the result set: a \<^verbatim>\<open>Check\<close> request with index 1 whose attributes do not decode is
  answered with \<^verbatim>\<open>INVALID_ARGUMENT\<close> and index 0.
\<close>

theorem decode_failure_response_loses_RequestIndex:
  "\<exists>d. run testServer (CheckMethod testServer) [Recv] (init testServer [badReq] None) = Some d \<and>
       map resp_RequestIndex (sent d) = [0] \<and>
       map (\<lambda>r. Code (Result r)) (sent d) = [INVALID_ARGUMENT] \<and>
       RequestIndex badReq = 1"
  by (simp add: eval_defs)

section \<open>The codec against the test file\<close>

text \<open>
  \<^verbatim>\<open>TestProtoBag\<close>: the message decodes against the global dictionary to the names and
  values the test expects, and a name the message does not carry is not found.
\<close>

lemmas codec_defs = DecodeAttributes_def decodeAll_def andThen_def lookup_def decodeString_def
  decodeStringMap_def protoBagAttrs_def errorAttrs_def globalDict_def messageDict_def
  emptyAttributes_def Let_def

lemma TestProtoBag:
  "\<exists>pb. DecodeAttributes protoBagAttrs globalDict = Inr pb \<and>
     map (Get pb) [''G4'', ''G6'', ''G7'', ''M1'', ''M2'', ''M3'', ''M4'', ''M5'', ''XYZ''] =
       [Some (VString ''G5''), Some (VInt64 42), Some (VFloat64 4631107791820423168),
        Some (VBool True), Some (VTimestamp t9), Some (VDuration d1), Some (VBytes [11]),
        Some (VStringMap [(''M6'', ''M7'')]), None]"
  by (simp add: codec_defs)

section \<open>Decoding\<close>

lemma lookup_append: "lookup i g w = Some s \<Longrightarrow> lookup i g (w @ ws) = Some s"
  by (auto simp: lookup_def Let_def nth_append split: if_splits)

lemma decodeMap_append:
  "decodeMap g w conv (es @ es') b =
     andThen (decodeMap g w conv es b) (decodeMap g w conv es')"
  by (induction es arbitrary: b) (auto simp: andThen_def split: option.splits sum.splits)

lemma decodeMap_map:
  "decodeMap g w conv es b = decodeMap g w (\<lambda>r. r) (map (\<lambda>(i, x). (i, conv x)) es) b"
  by (induction es arbitrary: b) (auto split: option.splits sum.splits)

lemma andThen_assoc: "andThen (andThen r f) h = andThen r (\<lambda>x. andThen (f x) h)"
  by (simp add: andThen_def split: sum.splits)

lemma decodeAll_flat: "decodeAll a g = decodeMap g (Words a) (\<lambda>r. r) (allEntries g a) Map.empty"
  unfolding decodeAll_def allEntries_def Let_def decodeMap_append andThen_assoc
  by (simp add: decodeMap_map[symmetric] andThen_def split: sum.splits)

lemma keys_allEntries: "fst ` set (allEntries g a) = keys a"
  by (auto simp: allEntries_def keys_def Let_def image_Un image_image split_def)

lemma decodeMap_sound:
  assumes "\<forall>(i, r) \<in> set es. \<exists>n v. lookup i g w = Some n \<and> r = Inr v \<and> GB n = Some v"
    and "\<forall>n v. b n = Some v \<longrightarrow> GB n = Some v"
  shows "\<exists>b'. decodeMap g w (\<lambda>r. r) es b = Inr b' \<and> (\<forall>n v. b' n = Some v \<longrightarrow> GB n = Some v) \<and>
           dom b' = dom b \<union> {n. \<exists>i \<in> fst ` set es. lookup i g w = Some n}"
  using assms
proof (induction es arbitrary: b)
  case Nil
  then show ?case by simp
next
  case (Cons e es)
  obtain i r where e: "e = (i, r)" by (cases e)
  from Cons.prems(1) e obtain n v where nv: "lookup i g w = Some n" "r = Inr v" "GB n = Some v"
    by auto
  have "\<forall>n' v'. (b(n \<mapsto> v)) n' = Some v' \<longrightarrow> GB n' = Some v'"
    using Cons.prems(2) nv by auto
  moreover have "\<forall>(i, r) \<in> set es. \<exists>n v. lookup i g w = Some n \<and> r = Inr v \<and> GB n = Some v"
    using Cons.prems(1) by auto
  ultimately obtain b' where b': "decodeMap g w (\<lambda>r. r) es (b(n \<mapsto> v)) = Inr b'"
      "\<forall>n v. b' n = Some v \<longrightarrow> GB n = Some v"
      "dom b' = dom (b(n \<mapsto> v)) \<union> {n. \<exists>i \<in> fst ` set es. lookup i g w = Some n}"
    using Cons.IH[of "b(n \<mapsto> v)"] by blast
  have "dom b' = dom b \<union> {n. \<exists>i \<in> fst ` set (e # es). lookup i g w = Some n}"
    using b'(3) e nv(1) by auto
  then show ?case using b' e nv by auto
qed

lemma lookup_None_iff:
  "lookup i g w = None \<longleftrightarrow> (if i < 0 then int (length w) < - i else int (length g) \<le> i)"
  by (auto simp: lookup_def Let_def)

lemma decodeEntries_error: "decodeEntries g w es acc = Inl e \<Longrightarrow> unresolved g w e"
proof (induction es arbitrary: acc)
  case Nil
  then show ?case by simp
next
  case (Cons p es)
  obtain i j where p: "p = (i, j)" by (cases p)
  show ?case
  proof (cases "lookup i g w")
    case None
    then show ?thesis using Cons.prems p by auto
  next
    case (Some k)
    show ?thesis
    proof (cases "lookup j g w")
      case None
      then show ?thesis using Cons.prems p Some by auto
    next
      case (Some v)
      then show ?thesis using Cons.prems p \<open>lookup i g w = Some k\<close> Cons.IH by auto
    qed
  qed
qed

lemma conv_error:
  "decodeString g w x = Inl e \<Longrightarrow> unresolved g w e"
  "decodeStringMap g w es = Inl e \<Longrightarrow> unresolved g w e"
  by (auto simp: decodeString_def decodeStringMap_def split: option.splits sum.splits
      dest: decodeEntries_error)

lemma allEntries_error: "(i, Inl e) \<in> set (allEntries g a) \<Longrightarrow> unresolved g (Words a) e"
  unfolding allEntries_def Let_def by (auto dest: conv_error sym)

lemma decodeMap_fails:
  assumes "\<forall>(i, r) \<in> set es. \<forall>e. r = Inl e \<longrightarrow> unresolved g w e"
    and "\<exists>i \<in> fst ` set es. lookup i g w = None"
  shows "\<exists>e. decodeMap g w (\<lambda>r. r) es b = Inl e \<and> unresolved g w e"
  using assms
proof (induction es arbitrary: b)
  case Nil
  then show ?case by simp
next
  case (Cons p es)
  obtain i r where p: "p = (i, r)" by (cases p)
  show ?case
  proof (cases "lookup i g w")
    case None
    then show ?thesis using p by simp
  next
    case (Some name)
    show ?thesis
    proof (cases r)
      case (Inl e)
      then have "unresolved g w e" using Cons.prems(1) p by auto
      then show ?thesis using p Some Inl by simp
    next
      case (Inr v)
      have "\<forall>(i, r) \<in> set es. \<forall>e. r = Inl e \<longrightarrow> unresolved g w e" using Cons.prems(1) by auto
      moreover have "\<exists>i \<in> fst ` set es. lookup i g w = None" using Cons.prems(2) p Some by auto
      ultimately have "\<exists>e. decodeMap g w (\<lambda>r. r) es (b(name \<mapsto> v)) = Inl e \<and> unresolved g w e"
        by (rule Cons.IH)
      then show ?thesis using p Some Inr by simp
    qed
  qed
qed

text \<open>
  C3. Decoding is all-or-nothing. If the name index of any entry of any typed map is out
  of range for its dictionary tier (a global index beyond the global list, a local index
  beyond the message's word list), decoding returns an \<open>InvalidAttributeIndex\<close> error
  whose index does not resolve, and with it no bag: the result is never a bag of the
  entries that did resolve.
\<close>

theorem decode_all_or_nothing:
  assumes "i \<in> keys a"
    and "if i < 0 then int (length (Words a)) < - i else int (length g) \<le> i"
  shows "(\<exists>j. DecodeAttributes a g = Inl (InvalidAttributeIndex j) \<and> lookup j g (Words a) = None) \<and>
         (\<forall>b. DecodeAttributes a g \<noteq> Inr b)"
proof -
  have "lookup i g (Words a) = None" using assms(2) by (simp add: lookup_None_iff)
  then have "\<exists>i \<in> fst ` set (allEntries g a). lookup i g (Words a) = None"
    using assms(1) by (auto simp: keys_allEntries)
  moreover have "\<forall>(i, r) \<in> set (allEntries g a). \<forall>e. r = Inl e \<longrightarrow> unresolved g (Words a) e"
    using allEntries_error by blast
  ultimately obtain e where e: "decodeAll a g = Inl e" "unresolved g (Words a) e"
    using decodeMap_fails[of "allEntries g a" g "Words a" Map.empty] by (auto simp: decodeAll_flat)
  obtain j where "e = InvalidAttributeIndex j" by (cases e)
  then show ?thesis using e by (simp add: DecodeAttributes_def)
qed

text \<open>
  \<^verbatim>\<open>TestProtoBag_Errors\<close>: the entry \<open>-24 \<mapsto> 25\<close> of the string map, with ten words in
  either dictionary, makes the decoding fail without a bag.
\<close>

theorem decode_all_or_nothing_witness:
  "- 24 \<in> keys errorAttrs \<and> int (length (Words errorAttrs)) < 24 \<and>
   (\<exists>j. DecodeAttributes errorAttrs globalDict = Inl (InvalidAttributeIndex j)) \<and>
   DecodeAttributes errorAttrs globalDict = Inl (InvalidAttributeIndex (- 24))"
proof -
  have k: "- 24 \<in> keys errorAttrs" by (simp add: keys_def errorAttrs_def emptyAttributes_def)
  have r: "if (- 24 :: int) < 0 then int (length (Words errorAttrs)) < - (- 24)
           else int (length globalDict) \<le> - 24"
    by (simp add: errorAttrs_def)
  from decode_all_or_nothing[OF k r]
  have "\<exists>j. DecodeAttributes errorAttrs globalDict = Inl (InvalidAttributeIndex j)" by blast
  moreover have "DecodeAttributes errorAttrs globalDict = Inl (InvalidAttributeIndex (- 24))"
    by (simp add: codec_defs)
  moreover have "int (length (Words errorAttrs)) < 24" by (simp add: errorAttrs_def)
  ultimately show ?thesis using k by (intro conjI)
qed

section \<open>Encoding, and the round trip\<close>

lemma set_update_subset: "set (AList.update k v al) \<subseteq> insert (k, v) (set al)"
  by (induction al) auto

lemma update_fresh: "k \<notin> fst ` set al \<Longrightarrow> AList.update k v al = al @ [(k, v)]"
  by (induction al) auto

lemma getIndex_props:
  assumes "consistent wordMap g" "getIndex wordMap word a = (i, a')"
  shows "\<exists>ws. a' = a\<lparr>Words := Words a @ ws\<rparr>" "lookup i g (Words a') = Some word"
proof -
  show "\<exists>ws. a' = a\<lparr>Words := Words a @ ws\<rparr>"
  proof (cases "wordMap word")
    case None
    then show ?thesis using assms(2) by (auto simp: getIndex_def)
  next
    case (Some j)
    then have "a' = a\<lparr>Words := Words a @ []\<rparr>" using assms(2) by (simp add: getIndex_def)
    then show ?thesis by blast
  qed
  show "lookup i g (Words a') = Some word"
  proof (cases "wordMap word")
    case None
    then show ?thesis using assms(2) by (auto simp: getIndex_def lookup_def)
  next
    case (Some j)
    then have "i = j" "a' = a" using assms(2) by (auto simp: getIndex_def)
    moreover have "0 \<le> j \<and> nat j < length g \<and> g ! nat j = word"
      using assms(1) Some unfolding consistent_def by blast
    ultimately show ?thesis by (simp add: lookup_def)
  qed
qed

lemma decodeEntries_append_words:
  "decodeEntries g w es acc = Inr sm \<Longrightarrow> decodeEntries g (w @ ws) es acc = Inr sm"
proof (induction es arbitrary: acc)
  case Nil
  then show ?case by simp
next
  case (Cons e es)
  obtain i j where e: "e = (i, j)" by (cases e)
  from Cons.prems e obtain k v where kv: "lookup i g w = Some k" "lookup j g w = Some v"
    by (auto split: option.splits)
  then have "decodeEntries g w es (AList.update k v acc) = Inr sm" using Cons.prems e by simp
  then have "decodeEntries g (w @ ws) es (AList.update k v acc) = Inr sm" by (rule Cons.IH)
  then show ?case using e kv by (simp add: lookup_append)
qed

lemma conv_append_words:
  "decodeString g w x = Inr v \<Longrightarrow> decodeString g (w @ ws) x = Inr v"
  "decodeStringMap g w es = Inr v \<Longrightarrow> decodeStringMap g (w @ ws) es = Inr v"
  by (auto simp: decodeString_def decodeStringMap_def lookup_append decodeEntries_append_words
      split: option.splits sum.splits)

lemma allEntries_ext:
  assumes "(i, r) \<in> set (allEntries g (a\<lparr>Words := Words a @ ws\<rparr>))"
  shows "\<exists>r0. (i, r0) \<in> set (allEntries g a) \<and> (\<forall>v. r0 = Inr v \<longrightarrow> r = Inr v)"
  using assms unfolding allEntries_def Let_def
  by (auto simp: conv_append_words)

lemma sound_ext: "sound g B a \<Longrightarrow> sound g B (a\<lparr>Words := Words a @ ws\<rparr>)"
  unfolding sound_def
proof (clarify)
  fix i r
  assume s: "\<forall>(i, r)\<in>set (allEntries g a). \<exists>n v. lookup i g (Words a) = Some n \<and> r = Inr v \<and> Get B n = Some v"
    and m: "(i, r) \<in> set (allEntries g (a\<lparr>Words := Words a @ ws\<rparr>))"
  from allEntries_ext[OF m] obtain r0 where r0: "(i, r0) \<in> set (allEntries g a)"
      "\<forall>v. r0 = Inr v \<longrightarrow> r = Inr v" by blast
  from s r0(1) obtain n v where "lookup i g (Words a) = Some n" "r0 = Inr v" "Get B n = Some v"
    by blast
  then show "\<exists>n v. lookup i g (Words (a\<lparr>Words := Words a @ ws\<rparr>)) = Some n \<and> r = Inr v \<and> Get B n = Some v"
    using r0(2) by (simp add: lookup_append)
qed

lemma resolved_append_words: "resolved g w es kvs \<Longrightarrow> resolved g (w @ ws) es kvs"
  unfolding resolved_def by (erule list_all2_mono) (auto simp: lookup_append)

lemma resolved_keys: "resolved g w es kvs \<Longrightarrow> i \<in> fst ` set es \<Longrightarrow> \<exists>k \<in> fst ` set kvs. lookup i g w = Some k"
  unfolding resolved_def
proof (induction es kvs rule: list_all2_induct)
  case Nil
  then show ?case by simp
next
  case (Cons e es kv kvs)
  then show ?case by (cases e; cases kv) auto
qed

lemma decodeEntries_rel:
  "resolved g w es kvs \<Longrightarrow> distinct (map fst (acc @ kvs)) \<Longrightarrow> decodeEntries g w es acc = Inr (acc @ kvs)"
  unfolding resolved_def
proof (induction es kvs arbitrary: acc rule: list_all2_induct)
  case Nil
  then show ?case by simp
next
  case (Cons e es kv kvs)
  obtain i j where e: "e = (i, j)" by (cases e)
  obtain k v where kv: "kv = (k, v)" by (cases kv)
  have l: "lookup i g w = Some k" "lookup j g w = Some v" using Cons.hyps(1) e kv by auto
  have fresh: "k \<notin> fst ` set acc" using Cons.prems kv by auto
  have "distinct (map fst ((acc @ [(k, v)]) @ kvs))" using Cons.prems kv by simp
  then have "decodeEntries g w es (acc @ [(k, v)]) = Inr ((acc @ [(k, v)]) @ kvs)"
    by (rule Cons.IH)
  then show ?case using e kv l update_fresh[OF fresh] by simp
qed

lemma encodeEntries_rel:
  assumes "consistent wordMap g"
  shows "encodeEntries wordMap kvs es a = (es', a') \<Longrightarrow> resolved g (Words a) es kvs0 \<Longrightarrow>
         distinct (map fst (kvs0 @ kvs)) \<Longrightarrow>
         (\<exists>ws. a' = a\<lparr>Words := Words a @ ws\<rparr>) \<and> resolved g (Words a') es' (kvs0 @ kvs)"
proof (induction kvs arbitrary: es a kvs0)
  case Nil
  have "a = a\<lparr>Words := Words a @ []\<rparr>" by simp
  then have "\<exists>ws. a = a\<lparr>Words := Words a @ ws\<rparr>" by (rule exI)
  then show ?case using Nil by simp
next
  case (Cons kv kvs)
  obtain k v where kv: "kv = (k, v)" by (cases kv)
  obtain i a1 where g1: "getIndex wordMap k a = (i, a1)" by (cases "getIndex wordMap k a")
  obtain j a2 where g2: "getIndex wordMap v a1 = (j, a2)" by (cases "getIndex wordMap v a1")
  from getIndex_props[OF assms g1] obtain ws1 where
    a1: "a1 = a\<lparr>Words := Words a @ ws1\<rparr>" and l1: "lookup i g (Words a1) = Some k" by blast
  from getIndex_props[OF assms g2] obtain ws2 where
    a2: "a2 = a1\<lparr>Words := Words a1 @ ws2\<rparr>" and l2: "lookup j g (Words a2) = Some v" by blast
  have w2: "Words a2 = Words a @ (ws1 @ ws2)" using a1 a2 by simp
  have li: "lookup i g (Words a2) = Some k" using l1 a2 by (simp add: lookup_append)
  have r2: "resolved g (Words a2) es kvs0" using Cons.prems(2) w2 resolved_append_words by metis
  have fresh: "i \<notin> fst ` set es"
  proof
    assume "i \<in> fst ` set es"
    then obtain k' where "k' \<in> fst ` set kvs0" "lookup i g (Words a2) = Some k'"
      using resolved_keys[OF r2] by blast
    then show False using li Cons.prems(3) kv by auto
  qed
  have r3: "resolved g (Words a2) (AList.update i j es) (kvs0 @ [(k, v)])"
    using r2 li l2 unfolding update_fresh[OF fresh] resolved_def
    by (auto intro: list_all2_appendI)
  have e: "encodeEntries wordMap kvs (AList.update i j es) a2 = (es', a')"
    using Cons.prems(1) kv g1 g2 by simp
  have d: "distinct (map fst ((kvs0 @ [(k, v)]) @ kvs))" using Cons.prems(3) kv by simp
  from Cons.IH[OF e r3 d] obtain ws3 where
    "a' = a2\<lparr>Words := Words a2 @ ws3\<rparr>" "resolved g (Words a') es' ((kvs0 @ [(k, v)]) @ kvs)" by blast
  then have "a' = a\<lparr>Words := Words a @ (ws1 @ ws2 @ ws3)\<rparr>" "resolved g (Words a') es' (kvs0 @ kv # kvs)"
    using a1 a2 kv by auto
  then show ?case by blast
qed

lemma allEntries_update:
  "set (allEntries g (a\<lparr>Strings := AList.update i x1 (Strings a)\<rparr>)) \<subseteq> insert (i, decodeString g (Words a) x1) (set (allEntries g a))"
  "set (allEntries g (a\<lparr>Int64S := AList.update i x2 (Int64S a)\<rparr>)) \<subseteq> insert (i, Inr (VInt64 x2)) (set (allEntries g a))"
  "set (allEntries g (a\<lparr>Doubles := AList.update i x3 (Doubles a)\<rparr>)) \<subseteq> insert (i, Inr (VFloat64 x3)) (set (allEntries g a))"
  "set (allEntries g (a\<lparr>Bools := AList.update i x4 (Bools a)\<rparr>)) \<subseteq> insert (i, Inr (VBool x4)) (set (allEntries g a))"
  "set (allEntries g (a\<lparr>Timestamps := AList.update i x5 (Timestamps a)\<rparr>)) \<subseteq> insert (i, Inr (VTimestamp x5)) (set (allEntries g a))"
  "set (allEntries g (a\<lparr>Durations := AList.update i x6 (Durations a)\<rparr>)) \<subseteq> insert (i, Inr (VDuration x6)) (set (allEntries g a))"
  "set (allEntries g (a\<lparr>Bytes := AList.update i x7 (Bytes a)\<rparr>)) \<subseteq> insert (i, Inr (VBytes x7)) (set (allEntries g a))"
  "set (allEntries g (a\<lparr>StringMaps := AList.update i x8 (StringMaps a)\<rparr>)) \<subseteq> insert (i, decodeStringMap g (Words a) x8) (set (allEntries g a))"
  using set_update_subset[of i x1 "Strings a"]
    set_update_subset[of i x2 "Int64S a"]
    set_update_subset[of i x3 "Doubles a"]
    set_update_subset[of i x4 "Bools a"]
    set_update_subset[of i x5 "Timestamps a"]
    set_update_subset[of i x6 "Durations a"]
    set_update_subset[of i x7 "Bytes a"]
    set_update_subset[of i x8 "StringMaps a"]
  by (auto simp: allEntries_def Let_def)

lemma keys_update:
  "keys (a\<lparr>Strings := AList.update i x1 (Strings a)\<rparr>) = insert i (keys a)"
  "keys (a\<lparr>Int64S := AList.update i x2 (Int64S a)\<rparr>) = insert i (keys a)"
  "keys (a\<lparr>Doubles := AList.update i x3 (Doubles a)\<rparr>) = insert i (keys a)"
  "keys (a\<lparr>Bools := AList.update i x4 (Bools a)\<rparr>) = insert i (keys a)"
  "keys (a\<lparr>Timestamps := AList.update i x5 (Timestamps a)\<rparr>) = insert i (keys a)"
  "keys (a\<lparr>Durations := AList.update i x6 (Durations a)\<rparr>) = insert i (keys a)"
  "keys (a\<lparr>Bytes := AList.update i x7 (Bytes a)\<rparr>) = insert i (keys a)"
  "keys (a\<lparr>StringMaps := AList.update i x8 (StringMaps a)\<rparr>) = insert i (keys a)"
  by (auto simp: keys_def dom_update)

lemma keys_ext: "keys (a\<lparr>Words := w\<rparr>) = keys a"
  by (simp add: keys_def)

lemma sound_insert:
  assumes "sound g B a" "set (allEntries g a') \<subseteq> insert (i, Inr v) (set (allEntries g a))"
    "Words a' = Words a" "lookup i g (Words a) = Some n" "Get B n = Some v"
  shows "sound g B a'"
  using assms unfolding sound_def by fastforce

lemma stepOK_I:
  "sound g B a' \<Longrightarrow> Words a' = Words a @ ws \<Longrightarrow> keys a' = insert i (keys a) \<Longrightarrow>
   lookup i g (Words a') = Some name \<Longrightarrow> stepOK g B name a a'"
  unfolding stepOK_def by blast

lemma keys_ext_eq: "a' = a\<lparr>Words := w\<rparr> \<Longrightarrow> keys a' = keys a"
  by (simp add: keys_def)

lemma words_ext_eq: "a' = a\<lparr>Words := Words a @ ws\<rparr> \<Longrightarrow> Words a' = Words a @ ws"
  by simp

lemma encodeValue_inv:
  assumes "consistent wordMap g" "sound g B a" "Get B name = Some v" "wf_value v"
  shows "stepOK g B name a (encodeValue wordMap name v a)"
proof (cases v)
  case (VString x)
  obtain i a1 where g1: "getIndex wordMap name a = (i, a1)" by (cases "getIndex wordMap name a")
  obtain j a2 where g2: "getIndex wordMap x a1 = (j, a2)" by (cases "getIndex wordMap x a1")
  from getIndex_props[OF assms(1) g1] obtain ws1 where
    a1: "a1 = a\<lparr>Words := Words a @ ws1\<rparr>" and l1: "lookup i g (Words a1) = Some name" by blast
  from getIndex_props[OF assms(1) g2] obtain ws2 where
    a2: "a2 = a1\<lparr>Words := Words a1 @ ws2\<rparr>" and l2: "lookup j g (Words a2) = Some x" by blast
  have li: "lookup i g (Words a2) = Some name" using l1 a2 by (simp add: lookup_append)
  have s2: "sound g B a2" using assms(2) a1 a2 by (simp add: sound_ext)
  have r: "encodeValue wordMap name v a = a2\<lparr>Strings := AList.update i j (Strings a2)\<rparr>"
    using VString g1 g2 by simp
  have c: "decodeString g (Words a2) j = Inr (VString x)" using l2 by (simp add: decodeString_def)
  have "sound g B (a2\<lparr>Strings := AList.update i j (Strings a2)\<rparr>)"
    using s2 allEntries_update(1)[where g = g and a = a2 and i = i] li assms(3) VString c
    by (auto intro!: sound_insert[where a = a2 and i = i and n = name])
  moreover have "Words a2 = Words a @ (ws1 @ ws2)"
    using words_ext_eq[OF a1] words_ext_eq[OF a2] by simp
  moreover have "keys a2 = keys a" using keys_ext_eq[OF a1] keys_ext_eq[OF a2] by simp
  ultimately show ?thesis unfolding r using li
    by (intro stepOK_I[where i = i and ws = "ws1 @ ws2"]) (simp_all add: keys_update)
next
  case (VInt64 x)
  obtain i a1 where g1: "getIndex wordMap name a = (i, a1)" by (cases "getIndex wordMap name a")
  from getIndex_props[OF assms(1) g1] obtain ws where
    a1: "a1 = a\<lparr>Words := Words a @ ws\<rparr>" and l1: "lookup i g (Words a1) = Some name" by blast
  have s1: "sound g B a1" using assms(2) a1 by (simp add: sound_ext)
  have r: "encodeValue wordMap name v a = a1\<lparr>Int64S := AList.update i x (Int64S a1)\<rparr>"
    using VInt64 g1 by simp
  have "sound g B (a1\<lparr>Int64S := AList.update i x (Int64S a1)\<rparr>)"
    using s1 allEntries_update(2)[where g = g and a = a1 and i = i] l1 assms(3) VInt64
    by (auto intro!: sound_insert[where a = a1 and i = i and n = name])
  moreover have "Words a1 = Words a @ ws" using words_ext_eq[OF a1] .
  moreover have "keys a1 = keys a" using keys_ext_eq[OF a1] .
  ultimately show ?thesis unfolding r using l1
    by (intro stepOK_I[where i = i and ws = ws]) (simp_all add: keys_update)
next
  case (VFloat64 x)
  obtain i a1 where g1: "getIndex wordMap name a = (i, a1)" by (cases "getIndex wordMap name a")
  from getIndex_props[OF assms(1) g1] obtain ws where
    a1: "a1 = a\<lparr>Words := Words a @ ws\<rparr>" and l1: "lookup i g (Words a1) = Some name" by blast
  have s1: "sound g B a1" using assms(2) a1 by (simp add: sound_ext)
  have r: "encodeValue wordMap name v a = a1\<lparr>Doubles := AList.update i x (Doubles a1)\<rparr>"
    using VFloat64 g1 by simp
  have "sound g B (a1\<lparr>Doubles := AList.update i x (Doubles a1)\<rparr>)"
    using s1 allEntries_update(3)[where g = g and a = a1 and i = i] l1 assms(3) VFloat64
    by (auto intro!: sound_insert[where a = a1 and i = i and n = name])
  moreover have "Words a1 = Words a @ ws" using words_ext_eq[OF a1] .
  moreover have "keys a1 = keys a" using keys_ext_eq[OF a1] .
  ultimately show ?thesis unfolding r using l1
    by (intro stepOK_I[where i = i and ws = ws]) (simp_all add: keys_update)
next
  case (VBool x)
  obtain i a1 where g1: "getIndex wordMap name a = (i, a1)" by (cases "getIndex wordMap name a")
  from getIndex_props[OF assms(1) g1] obtain ws where
    a1: "a1 = a\<lparr>Words := Words a @ ws\<rparr>" and l1: "lookup i g (Words a1) = Some name" by blast
  have s1: "sound g B a1" using assms(2) a1 by (simp add: sound_ext)
  have r: "encodeValue wordMap name v a = a1\<lparr>Bools := AList.update i x (Bools a1)\<rparr>"
    using VBool g1 by simp
  have "sound g B (a1\<lparr>Bools := AList.update i x (Bools a1)\<rparr>)"
    using s1 allEntries_update(4)[where g = g and a = a1 and i = i] l1 assms(3) VBool
    by (auto intro!: sound_insert[where a = a1 and i = i and n = name])
  moreover have "Words a1 = Words a @ ws" using words_ext_eq[OF a1] .
  moreover have "keys a1 = keys a" using keys_ext_eq[OF a1] .
  ultimately show ?thesis unfolding r using l1
    by (intro stepOK_I[where i = i and ws = ws]) (simp_all add: keys_update)
next
  case (VTimestamp x)
  obtain i a1 where g1: "getIndex wordMap name a = (i, a1)" by (cases "getIndex wordMap name a")
  from getIndex_props[OF assms(1) g1] obtain ws where
    a1: "a1 = a\<lparr>Words := Words a @ ws\<rparr>" and l1: "lookup i g (Words a1) = Some name" by blast
  have s1: "sound g B a1" using assms(2) a1 by (simp add: sound_ext)
  have r: "encodeValue wordMap name v a = a1\<lparr>Timestamps := AList.update i x (Timestamps a1)\<rparr>"
    using VTimestamp g1 by simp
  have "sound g B (a1\<lparr>Timestamps := AList.update i x (Timestamps a1)\<rparr>)"
    using s1 allEntries_update(5)[where g = g and a = a1 and i = i] l1 assms(3) VTimestamp
    by (auto intro!: sound_insert[where a = a1 and i = i and n = name])
  moreover have "Words a1 = Words a @ ws" using words_ext_eq[OF a1] .
  moreover have "keys a1 = keys a" using keys_ext_eq[OF a1] .
  ultimately show ?thesis unfolding r using l1
    by (intro stepOK_I[where i = i and ws = ws]) (simp_all add: keys_update)
next
  case (VDuration x)
  obtain i a1 where g1: "getIndex wordMap name a = (i, a1)" by (cases "getIndex wordMap name a")
  from getIndex_props[OF assms(1) g1] obtain ws where
    a1: "a1 = a\<lparr>Words := Words a @ ws\<rparr>" and l1: "lookup i g (Words a1) = Some name" by blast
  have s1: "sound g B a1" using assms(2) a1 by (simp add: sound_ext)
  have r: "encodeValue wordMap name v a = a1\<lparr>Durations := AList.update i x (Durations a1)\<rparr>"
    using VDuration g1 by simp
  have "sound g B (a1\<lparr>Durations := AList.update i x (Durations a1)\<rparr>)"
    using s1 allEntries_update(6)[where g = g and a = a1 and i = i] l1 assms(3) VDuration
    by (auto intro!: sound_insert[where a = a1 and i = i and n = name])
  moreover have "Words a1 = Words a @ ws" using words_ext_eq[OF a1] .
  moreover have "keys a1 = keys a" using keys_ext_eq[OF a1] .
  ultimately show ?thesis unfolding r using l1
    by (intro stepOK_I[where i = i and ws = ws]) (simp_all add: keys_update)
next
  case (VBytes x)
  obtain i a1 where g1: "getIndex wordMap name a = (i, a1)" by (cases "getIndex wordMap name a")
  from getIndex_props[OF assms(1) g1] obtain ws where
    a1: "a1 = a\<lparr>Words := Words a @ ws\<rparr>" and l1: "lookup i g (Words a1) = Some name" by blast
  have s1: "sound g B a1" using assms(2) a1 by (simp add: sound_ext)
  have r: "encodeValue wordMap name v a = a1\<lparr>Bytes := AList.update i x (Bytes a1)\<rparr>"
    using VBytes g1 by simp
  have "sound g B (a1\<lparr>Bytes := AList.update i x (Bytes a1)\<rparr>)"
    using s1 allEntries_update(7)[where g = g and a = a1 and i = i] l1 assms(3) VBytes
    by (auto intro!: sound_insert[where a = a1 and i = i and n = name])
  moreover have "Words a1 = Words a @ ws" using words_ext_eq[OF a1] .
  moreover have "keys a1 = keys a" using keys_ext_eq[OF a1] .
  ultimately show ?thesis unfolding r using l1
    by (intro stepOK_I[where i = i and ws = ws]) (simp_all add: keys_update)
next
  case (VStringMap sm)
  obtain i a1 where g1: "getIndex wordMap name a = (i, a1)" by (cases "getIndex wordMap name a")
  obtain es a2 where g2: "encodeEntries wordMap sm [] a1 = (es, a2)"
    by (cases "encodeEntries wordMap sm [] a1")
  from getIndex_props[OF assms(1) g1] obtain ws1 where
    a1: "a1 = a\<lparr>Words := Words a @ ws1\<rparr>" and l1: "lookup i g (Words a1) = Some name" by blast
  have "resolved g (Words a1) [] []" by (simp add: resolved_def)
  moreover have "distinct (map fst ([] @ sm))" using assms(4) VStringMap by simp
  ultimately obtain ws2 where
    a2: "a2 = a1\<lparr>Words := Words a1 @ ws2\<rparr>" and r2: "resolved g (Words a2) es ([] @ sm)"
    using encodeEntries_rel[OF assms(1) g2] by blast
  have li: "lookup i g (Words a2) = Some name" using l1 a2 by (simp add: lookup_append)
  have s2: "sound g B a2" using assms(2) a1 a2 by (simp add: sound_ext)
  have r: "encodeValue wordMap name v a = a2\<lparr>StringMaps := AList.update i es (StringMaps a2)\<rparr>"
    using VStringMap g1 g2 by simp
  have "decodeEntries g (Words a2) es [] = Inr ([] @ sm)"
    using r2 assms(4) VStringMap by (intro decodeEntries_rel) auto
  then have c: "decodeStringMap g (Words a2) es = Inr (VStringMap sm)"
    by (simp add: decodeStringMap_def)
  have "sound g B (a2\<lparr>StringMaps := AList.update i es (StringMaps a2)\<rparr>)"
    using s2 allEntries_update(8)[where g = g and a = a2 and i = i] li assms(3) VStringMap c
    by (auto intro!: sound_insert[where a = a2 and i = i and n = name])
  moreover have "Words a2 = Words a @ (ws1 @ ws2)"
    using words_ext_eq[OF a1] words_ext_eq[OF a2] by simp
  moreover have "keys a2 = keys a" using keys_ext_eq[OF a1] keys_ext_eq[OF a2] by simp
  ultimately show ?thesis unfolding r using li
    by (intro stepOK_I[where i = i and ws = "ws1 @ ws2"]) (simp_all add: keys_update)
qed

lemma sound_empty: "sound g B emptyAttributes"
  by (simp add: sound_def allEntries_def emptyAttributes_def)

lemma encodeName_inv:
  assumes "consistent wordMap g" "sound g B a" "\<forall>v. Get B n = Some v \<longrightarrow> wf_value v"
  shows "sound g B (encodeName wordMap B n a) \<and>
         (\<exists>ws. Words (encodeName wordMap B n a) = Words a @ ws) \<and>
         keys a \<subseteq> keys (encodeName wordMap B n a) \<and>
         (Get B n \<noteq> None \<longrightarrow>
           (\<exists>i \<in> keys (encodeName wordMap B n a). lookup i g (Words (encodeName wordMap B n a)) = Some n))"
proof (cases "Get B n")
  case None
  then show ?thesis using assms(2) by (simp add: encodeName_def)
next
  case (Some v)
  then have "stepOK g B n a (encodeValue wordMap n v a)"
    using encodeValue_inv[OF assms(1,2)] assms(3) by blast
  then show ?thesis using Some unfolding stepOK_def by (simp add: encodeName_def)
qed

lemma fold_encodeName_inv:
  assumes "consistent wordMap g"
  shows "sound g B a \<Longrightarrow> \<forall>n \<in> set names. \<forall>v. Get B n = Some v \<longrightarrow> wf_value v \<Longrightarrow>
     sound g B (fold (encodeName wordMap B) names a) \<and>
     (\<exists>ws. Words (fold (encodeName wordMap B) names a) = Words a @ ws) \<and>
     keys a \<subseteq> keys (fold (encodeName wordMap B) names a) \<and>
     (\<forall>n \<in> set names. Get B n \<noteq> None \<longrightarrow>
        (\<exists>i \<in> keys (fold (encodeName wordMap B) names a).
            lookup i g (Words (fold (encodeName wordMap B) names a)) = Some n))"
proof (induction names arbitrary: a)
  case Nil
  then show ?case by simp
next
  case (Cons n names)
  let ?a1 = "encodeName wordMap B n a"
  let ?a' = "fold (encodeName wordMap B) names ?a1"
  have wfn: "\<forall>v. Get B n = Some v \<longrightarrow> wf_value v" using Cons.prems(2) by simp
  from encodeName_inv[OF assms Cons.prems(1) wfn] obtain ws1 where
    s1: "sound g B ?a1" and w1: "Words ?a1 = Words a @ ws1" and k1: "keys a \<subseteq> keys ?a1"
    and c1: "Get B n \<noteq> None \<longrightarrow> (\<exists>i \<in> keys ?a1. lookup i g (Words ?a1) = Some n)"
    by blast
  have wfr: "\<forall>n \<in> set names. \<forall>v. Get B n = Some v \<longrightarrow> wf_value v" using Cons.prems(2) by simp
  from Cons.IH[OF s1 wfr] obtain ws2 where
    s2: "sound g B ?a'" and w2: "Words ?a' = Words ?a1 @ ws2" and k2: "keys ?a1 \<subseteq> keys ?a'"
    and c2: "\<forall>m \<in> set names. Get B m \<noteq> None \<longrightarrow> (\<exists>i \<in> keys ?a'. lookup i g (Words ?a') = Some m)"
    by blast
  have c1': "Get B n \<noteq> None \<longrightarrow> (\<exists>i \<in> keys ?a'. lookup i g (Words ?a') = Some n)"
  proof
    assume "Get B n \<noteq> None"
    then obtain i where i: "i \<in> keys ?a1" "lookup i g (Words ?a1) = Some n" using c1 by blast
    have "lookup i g (Words ?a') = Some n" unfolding w2 using i(2) by (rule lookup_append)
    moreover have "i \<in> keys ?a'" using i(1) k2 by blast
    ultimately show "\<exists>i \<in> keys ?a'. lookup i g (Words ?a') = Some n" by blast
  qed
  have e: "fold (encodeName wordMap B) (n # names) a = ?a'" by simp
  have "Words ?a' = Words a @ (ws1 @ ws2)" using w1 w2 by simp
  then have w: "\<exists>ws. Words ?a' = Words a @ ws" by (rule exI)
  have k: "keys a \<subseteq> keys ?a'" using k1 k2 by (rule subset_trans)
  have c: "\<forall>m \<in> set (n # names). Get B m \<noteq> None \<longrightarrow>
              (\<exists>i \<in> keys ?a'. lookup i g (Words ?a') = Some m)"
  proof
    fix m assume "m \<in> set (n # names)"
    then have "m = n \<or> m \<in> set names" by simp
    then show "Get B m \<noteq> None \<longrightarrow> (\<exists>i \<in> keys ?a'. lookup i g (Words ?a') = Some m)"
      using c1' c2 by blast
  qed
  show ?case unfolding e using s2 w k c by (intro conjI)
qed

lemma revDictFrom_consistent:
  "\<forall>w i. m w = Some i \<longrightarrow> 0 \<le> i \<and> nat i < length pre \<and> (pre @ vs) ! nat i = w \<Longrightarrow>
   revDictFrom (length pre) vs m w = Some i \<Longrightarrow>
   0 \<le> i \<and> nat i < length (pre @ vs) \<and> (pre @ vs) ! nat i = w"
proof (induction vs arbitrary: pre m)
  case Nil
  then show ?case by simp
next
  case (Cons v vs)
  have "\<forall>w i. (m(v \<mapsto> int (length pre))) w = Some i \<longrightarrow>
          0 \<le> i \<and> nat i < length (pre @ [v]) \<and> ((pre @ [v]) @ vs) ! nat i = w"
  proof (intro allI impI)
    fix w i assume a: "(m(v \<mapsto> int (length pre))) w = Some i"
    show "0 \<le> i \<and> nat i < length (pre @ [v]) \<and> ((pre @ [v]) @ vs) ! nat i = w"
    proof (cases "w = v")
      case True
      then have "i = int (length pre)" using a by simp
      then show ?thesis using True by (simp add: nth_append)
    next
      case False
      then have "m w = Some i" using a by simp
      then have "0 \<le> i \<and> nat i < length pre \<and> (pre @ v # vs) ! nat i = w"
        using Cons.prems(1) by blast
      then show ?thesis by simp
    qed
  qed
  moreover have "revDictFrom (length (pre @ [v])) vs (m(v \<mapsto> int (length pre))) w = Some i"
    using Cons.prems(2) by simp
  ultimately have "0 \<le> i \<and> nat i < length ((pre @ [v]) @ vs) \<and> ((pre @ [v]) @ vs) ! nat i = w"
    by (rule Cons.IH)
  then show ?case by simp
qed

lemma revDict_consistent: "consistent (revDict g) g"
  unfolding consistent_def revDict_def
  using revDictFrom_consistent[of Map.empty "[]" g] by simp

lemma decodeAll_sound:
  assumes "sound g B a"
  shows "\<exists>b. decodeAll a g = Inr b \<and> (\<forall>n v. b n = Some v \<longrightarrow> Get B n = Some v) \<and>
             dom b = {n. \<exists>i \<in> keys a. lookup i g (Words a) = Some n}"
proof -
  have h1: "\<forall>(i, r) \<in> set (allEntries g a). \<exists>n v. lookup i g (Words a) = Some n \<and> r = Inr v \<and> Get B n = Some v"
    using assms unfolding sound_def .
  have h2: "\<forall>n v. (Map.empty :: string \<rightharpoonup> AttributeValue) n = Some v \<longrightarrow> Get B n = Some v" by simp
  show ?thesis using decodeMap_sound[OF h1 h2] by (simp add: decodeAll_flat keys_allEntries)
qed

text \<open>
  C1. Codec round trip. Let the reverse dictionary used by the encoder be consistent with
  the global dictionary used by the decoder, and let every name of \<open>N\<close> be present in the
  bag \<open>B\<close> (with a value that is a proper map if it is a string map). Then decoding the
  message that encodes \<open>B\<close> restricted to \<open>N\<close> succeeds, and in the decoded bag \<open>Get\<close> returns
  for every name of \<open>N\<close> the value \<open>B\<close> holds, and \<open>Names\<close> includes the name, whether the
  name and the strings of its value went through the global dictionary or through the
  message's word list.
\<close>

theorem round_trip:
  assumes "consistent wordMap g"
    and "\<forall>n \<in> set N. \<exists>v. Get B n = Some v \<and> wf_value v"
  shows "\<exists>b. DecodeAttributes (EncodeAttributes B N wordMap) g = Inr b \<and>
              (\<forall>n \<in> set N. Get b n = Get B n \<and> n \<in> Names b)"
proof -
  let ?a = "EncodeAttributes B N wordMap"
  have wf: "\<forall>n \<in> set N. \<forall>v. Get B n = Some v \<longrightarrow> wf_value v" using assms(2) by auto
  from fold_encodeName_inv[OF assms(1) sound_empty wf]
  have s: "sound g B ?a"
    and c: "\<forall>n \<in> set N. Get B n \<noteq> None \<longrightarrow> (\<exists>i \<in> keys ?a. lookup i g (Words ?a) = Some n)"
    unfolding EncodeAttributes_def by blast+
  from decodeAll_sound[OF s] obtain b where
      b: "decodeAll ?a g = Inr b" "\<forall>n v. b n = Some v \<longrightarrow> Get B n = Some v"
      "dom b = {n. \<exists>i \<in> keys ?a. lookup i g (Words ?a) = Some n}"
    by blast
  have d: "DecodeAttributes ?a g = Inr (Bag b {} None)"
    using b(1) by (simp add: DecodeAttributes_def)
  have "\<forall>n \<in> set N. Get (Bag b {} None) n = Get B n \<and> n \<in> Names (Bag b {} None)"
  proof
    fix n assume n: "n \<in> set N"
    then have "Get B n \<noteq> None" using assms(2) by auto
    then obtain i where "i \<in> keys ?a" "lookup i g (Words ?a) = Some n" using c n by blast
    then have "n \<in> dom b" unfolding b(3) by blast
    then obtain v where "b n = Some v" by blast
    then show "Get (Bag b {} None) n = Get B n \<and> n \<in> Names (Bag b {} None)"
      using b(2) by auto
  qed
  then show ?thesis using d by blast
qed

text \<open>
  The two-layer bag and the dictionary of \<^verbatim>\<open>TestProtoBag\<close>: \<open>G4\<close> and \<open>G6\<close> are global words,
  \<open>M1\<close> and \<open>M5\<close> are not; \<open>G4\<close> and \<open>M1\<close> come from the parent.
\<close>

theorem round_trip_witness:
  "consistent (revDict globalDict) globalDict \<and>
   Get childBag ''G4'' = Some (VString ''G5'') \<and> Get childBag ''G6'' = Some (VInt64 42) \<and>
   Get childBag ''M1'' = Some (VBool True) \<and>
   Get childBag ''M5'' = Some (VStringMap [(''M6'', ''M7'')]) \<and>
   (\<exists>b. DecodeAttributes
          (EncodeAttributes childBag [''G4'', ''G6'', ''M1'', ''M5''] (revDict globalDict))
          globalDict = Inr b \<and>
        Get b ''G4'' = Some (VString ''G5'') \<and> Get b ''G6'' = Some (VInt64 42) \<and>
        Get b ''M1'' = Some (VBool True) \<and> Get b ''M5'' = Some (VStringMap [(''M6'', ''M7'')]) \<and>
        {''G4'', ''G6'', ''M1'', ''M5''} \<subseteq> Names b)"
proof -
  have c: "consistent (revDict globalDict) globalDict" by (rule revDict_consistent)
  have g: "Get childBag ''G4'' = Some (VString ''G5'')" "Get childBag ''G6'' = Some (VInt64 42)"
    "Get childBag ''M1'' = Some (VBool True)"
    "Get childBag ''M5'' = Some (VStringMap [(''M6'', ''M7'')])"
    by (simp_all add: childBag_def parentBag_def)
  have p: "\<forall>n \<in> set [''G4'', ''G6'', ''M1'', ''M5'']. \<exists>v. Get childBag n = Some v \<and> wf_value v"
    using g by simp
  from round_trip[OF c p] obtain b where
    b: "DecodeAttributes
          (EncodeAttributes childBag [''G4'', ''G6'', ''M1'', ''M5''] (revDict globalDict))
          globalDict = Inr b \<and>
        (\<forall>n \<in> set [''G4'', ''G6'', ''M1'', ''M5'']. Get b n = Get childBag n \<and> n \<in> Names b)"
    ..
  then have "Get b ''G4'' = Some (VString ''G5'') \<and> Get b ''G6'' = Some (VInt64 42) \<and>
        Get b ''M1'' = Some (VBool True) \<and> Get b ''M5'' = Some (VStringMap [(''M6'', ''M7'')]) \<and>
        {''G4'', ''G6'', ''M1'', ''M5''} \<subseteq> Names b"
    using g by simp
  then have "\<exists>b. DecodeAttributes
          (EncodeAttributes childBag [''G4'', ''G6'', ''M1'', ''M5''] (revDict globalDict))
          globalDict = Inr b \<and>
        Get b ''G4'' = Some (VString ''G5'') \<and> Get b ''G6'' = Some (VInt64 42) \<and>
        Get b ''M1'' = Some (VBool True) \<and> Get b ''M5'' = Some (VStringMap [(''M6'', ''M7'')]) \<and>
        {''G4'', ''G6'', ''M1'', ''M5''} \<subseteq> Names b"
    using b by (intro exI[where x = b]) simp
  then show ?thesis using c g by (intro conjI)
qed

end
